theory Spec2Isabelle
  imports Main "HOL-Library.Char_ord" "HOL-Library.List_Lexorder"
begin

section \<open>JavaScript primitives used by the USSD pool code\<close>

text \<open>
  Strings are lists of characters. Numbers are the non-negative integers that digit sums
  produce (far below \<open>2^53\<close>, where JavaScript numbers are exact), so \<open>nat\<close>.
\<close>

definition digit_of :: "char \<Rightarrow> nat option" where
  "digit_of c = map_of
     [(CHR ''0'', 0), (CHR ''1'', 1), (CHR ''2'', 2), (CHR ''3'', 3), (CHR ''4'', 4),
      (CHR ''5'', 5), (CHR ''6'', 6), (CHR ''7'', 7), (CHR ''8'', 8), (CHR ''9'', 9)] c"

text \<open>The regular-expression class \<open>\d\<close> (without the unicode flag): \<open>[0-9]\<close>.\<close>

definition isDigit :: "char \<Rightarrow> bool" where
  "isDigit c = (digit_of c \<noteq> None)"

definition digit_val :: "char \<Rightarrow> nat" where
  "digit_val c = (case digit_of c of Some d \<Rightarrow> d | None \<Rightarrow> 0)"

definition digit_char :: "nat \<Rightarrow> char" where
  "digit_char d = ''0123456789'' ! d"

text \<open>
  \<open>Number(c)\<close> for a one-character string: a decimal digit gives its value, a white-space
  character gives \<open>0\<close> (the string is trimmed to the empty string), anything else gives
  \<open>NaN\<close>, here \<open>None\<close>.
\<close>

definition Number_char :: "char \<Rightarrow> nat option" where
  "Number_char c =
     (case digit_of c of
        Some d \<Rightarrow> Some d
      | None \<Rightarrow> if c \<in> set [CHR 0x09, CHR 0x0A, CHR 0x0B, CHR 0x0C, CHR 0x0D, CHR '' '']
                then Some 0 else None)"

text \<open>\<open>v || 0\<close> on a number: the falsy values \<open>NaN\<close> and \<open>0\<close> become \<open>0\<close>.\<close>

definition or_zero :: "nat option \<Rightarrow> nat" where
  "or_zero v = (case v of None \<Rightarrow> 0 | Some n \<Rightarrow> if n = 0 then 0 else n)"

text \<open>\<open>String(n)\<close> for a non-negative integer: its decimal numeral.\<close>

fun String_nat :: "nat \<Rightarrow> string" where
  "String_nat n =
     (if n < 10 then [digit_char n] else String_nat (n div 10) @ [digit_char (n mod 10)])"

declare String_nat.simps [simp del]

section \<open>Checksum: \<open>sumDigits\<close> and \<open>digitalRoot\<close>\<close>

text \<open>
  \<^verbatim>\<open>function sumDigits(str) { return (str || '').split('').reduce((a, c) => a + (Number(c) || 0), 0); }\<close>
\<close>

definition sumDigits :: "string \<Rightarrow> nat" where
  "sumDigits str = foldl (\<lambda>a c. a + or_zero (Number_char c)) 0 str"

lemma sumDigits_Nil: "sumDigits [] = 0"
  by (simp add: sumDigits_def)

lemma sumDigits_snoc: "sumDigits (xs @ [c]) = sumDigits xs + or_zero (Number_char c)"
  by (simp add: sumDigits_def)

lemma sumDigits_Cons: "sumDigits (c # xs) = or_zero (Number_char c) + sumDigits xs"
proof (induction xs rule: rev_induct)
  case Nil
  show ?case by (simp add: sumDigits_def)
next
  case (snoc x xs)
  have "sumDigits (c # xs @ [x]) = sumDigits ((c # xs) @ [x])" by simp
  also have "\<dots> = sumDigits (c # xs) + or_zero (Number_char x)" by (rule sumDigits_snoc)
  finally show ?case using snoc by (simp add: sumDigits_snoc)
qed

lemma digit_of_digit_char: "d < 10 \<Longrightarrow> digit_of (digit_char d) = Some d"
proof -
  assume "d < 10"
  then have "d \<in> {0, 1, 2, 3, 4, 5, 6, 7, 8, 9}" by auto
  then show ?thesis by (auto simp: digit_of_def digit_char_def)
qed

lemma Number_digit_char: "d < 10 \<Longrightarrow> or_zero (Number_char (digit_char d)) = d"
  by (simp add: Number_char_def or_zero_def digit_of_digit_char)

lemma digit_of_le9: "digit_of c = Some d \<Longrightarrow> d \<le> 9"
  by (auto simp: digit_of_def split: if_splits)

lemma or_zero_Number_le9: "or_zero (Number_char c) \<le> 9"
  by (auto simp: or_zero_def Number_char_def dest: digit_of_le9 split: option.splits)

lemma or_zero_Number_digit: "isDigit c \<Longrightarrow> or_zero (Number_char c) = digit_val c"
  by (auto simp: or_zero_def Number_char_def isDigit_def digit_val_def split: option.splits)

lemma or_zero_Number_nondigit: "\<not> isDigit c \<Longrightarrow> or_zero (Number_char c) = 0"
  by (auto simp: or_zero_def Number_char_def isDigit_def split: option.splits)

lemma digit_val_le9: "digit_val c \<le> 9"
  by (auto simp: digit_val_def dest: digit_of_le9 split: option.splits)

lemma sumDigits_String_nat_step:
  "10 \<le> n \<Longrightarrow> sumDigits (String_nat n) = sumDigits (String_nat (n div 10)) + n mod 10"
proof -
  assume "10 \<le> n"
  then have "String_nat n = String_nat (n div 10) @ [digit_char (n mod 10)]"
    by (subst String_nat.simps) simp
  then show ?thesis by (simp add: sumDigits_snoc Number_digit_char)
qed

lemma sumDigits_String_nat_small: "n < 10 \<Longrightarrow> sumDigits (String_nat n) = n"
proof -
  assume lt: "n < 10"
  then have "String_nat n = [] @ [digit_char n]" by (subst String_nat.simps) simp
  then show ?thesis using lt by (simp only: sumDigits_snoc sumDigits_Nil Number_digit_char)
qed

lemma sumDigits_String_nat_le: "sumDigits (String_nat n) \<le> n"
proof (induction n rule: less_induct)
  case (less n)
  show ?case
  proof (cases "n < 10")
    case True
    then show ?thesis by (simp add: sumDigits_String_nat_small)
  next
    case False
    then have ge: "10 \<le> n" by simp
    then have "n div 10 < n" by simp
    then have "sumDigits (String_nat (n div 10)) \<le> n div 10" by (rule less.IH)
    then show ?thesis using ge by (simp add: sumDigits_String_nat_step)
  qed
qed

lemma sumDigits_String_nat_less: "9 < n \<Longrightarrow> sumDigits (String_nat n) < n"
proof -
  assume "9 < n"
  then have ge: "10 \<le> n" by simp
  have le: "sumDigits (String_nat (n div 10)) \<le> n div 10" by (rule sumDigits_String_nat_le)
  have pos: "1 \<le> n div 10" using ge by simp
  have split: "n = 10 * (n div 10) + n mod 10" by simp
  have "sumDigits (String_nat (n div 10)) + n mod 10 < n" using le pos split by linarith
  then show ?thesis using ge by (simp add: sumDigits_String_nat_step)
qed

text \<open>
  \<^verbatim>\<open>function digitalRoot(n) { let s = sumDigits(String(n)); while (s > 9) s = sumDigits(String(s)); return s; }\<close>
  Both callers pass a string, on which \<open>String\<close> is the identity. The loop is
  \<open>digitalRoot_loop\<close>; it terminates because the digit sum of a number above 9 is smaller
  than the number.
\<close>

function digitalRoot_loop :: "nat \<Rightarrow> nat" where
  "digitalRoot_loop s = (if s > 9 then digitalRoot_loop (sumDigits (String_nat s)) else s)"
  by pat_completeness auto
termination
  by (relation "measure (\<lambda>s. s)") (auto simp: sumDigits_String_nat_less)

declare digitalRoot_loop.simps [simp del]

definition digitalRoot :: "string \<Rightarrow> nat" where
  "digitalRoot n = digitalRoot_loop (sumDigits n)"

text \<open>
  The seeding script \<open>scripts/seed-ussd-pool.js\<close> has its own copy, which returns the
  digit as a string:
  \<^verbatim>\<open>function digitalRoot(n) { let s = sumDigits(String(n)); while (s > 9) s = sumDigits(String(s)); return String(s); }\<close>
\<close>

definition seed_digitalRoot :: "string \<Rightarrow> string" where
  "seed_digitalRoot n = String_nat (digitalRoot_loop (sumDigits n))"

text \<open>
  \<open>supabase/seed_ussd_pool.sql\<close> seeds the pool in SQL. The cast \<open>(base_txt)::int\<close> of a
  digit string is \<open>sql_int\<close>; the \<open>digital_root\<close> expression of the script is
  \<^verbatim>\<open>case when (base_txt ~ '^\d+$') is false then '0'
     else (case when (base_txt)::int = 0 then '0'
                else (1 + (((base_txt)::int - 1) % 9))::text end) end\<close>
\<close>

definition sql_int :: "string \<Rightarrow> nat" where
  "sql_int s = foldl (\<lambda>a c. 10 * a + digit_val c) 0 s"

definition sql_digital_root :: "string \<Rightarrow> string" where
  "sql_digital_root base_txt =
     (if \<not> (base_txt \<noteq> [] \<and> list_all isDigit base_txt) then ''0''
      else if sql_int base_txt = 0 then ''0''
      else String_nat (1 + (sql_int base_txt - 1) mod 9))"

section \<open>More JavaScript primitives\<close>

text \<open>
  A request field is a string or absent (\<open>undefined\<close>), here \<open>string option\<close>.
  \<open>v || d\<close> picks \<open>d\<close> when \<open>v\<close> is falsy: absent or the empty string.
\<close>

definition truthy :: "string option \<Rightarrow> bool" where
  "truthy v = (case v of None \<Rightarrow> False | Some s \<Rightarrow> s \<noteq> [])"

definition or_str :: "string option \<Rightarrow> string \<Rightarrow> string" where
  "or_str v d = (case v of None \<Rightarrow> d | Some s \<Rightarrow> if s = [] then d else s)"

text \<open>\<open>String(v)\<close>: the string itself, and \<open>"undefined"\<close> for an absent field.\<close>

definition String_opt :: "string option \<Rightarrow> string" where
  "String_opt v = (case v of None \<Rightarrow> ''undefined'' | Some s \<Rightarrow> s)"

text \<open>
  \<open>toUpperCase\<close> on ASCII text: the letters a to z are mapped, all else is kept. Outside
  ASCII the function of JavaScript maps more characters (the long s to S, the dotless i
  to I), so \<open>toUpperCase\<close> below is that function on strings of ASCII characters only;
  a statement about the levels that are rejected is made for such strings (\<open>isAscii\<close>).
\<close>

definition upper_char :: "char \<Rightarrow> char" where
  "upper_char c =
     (case map_of (zip ''abcdefghijklmnopqrstuvwxyz'' ''ABCDEFGHIJKLMNOPQRSTUVWXYZ'') c of
        Some u \<Rightarrow> u
      | None \<Rightarrow> c)"

definition toUpperCase :: "string \<Rightarrow> string" where
  "toUpperCase s = map upper_char s"

definition isAscii :: "char \<Rightarrow> bool" where
  "isAscii c = ((of_char c :: nat) < 128)"

section \<open>Parsing and formatting dial codes\<close>

text \<open>
  \<^verbatim>\<open>function parseUssdDigits(ussd) { const m = String(ussd).match(/(\d{3})(\d)(?=#|$)/); if (!m) return null; return { base: m[1], check: m[2] }; }\<close>
  \<open>match_here\<close> tries the pattern at the start of the text: four digits, then either
  the end of the input or a \<open>#\<close> (the lookahead). \<open>String.match\<close> without the global flag
  returns the leftmost match, so \<open>parseUssdDigits\<close> tries each start position from left
  to right. It takes the result of \<open>String(ussd)\<close>.
\<close>

fun match_here :: "string \<Rightarrow> (string \<times> string) option" where
  "match_here (a # b # c # d # rest) =
     (if isDigit a \<and> isDigit b \<and> isDigit c \<and> isDigit d
         \<and> (case rest of [] \<Rightarrow> True | x # _ \<Rightarrow> x = CHR ''#'')
      then Some ([a, b, c], [d]) else None)"
| "match_here _ = None"

fun parseUssdDigits :: "string \<Rightarrow> (string \<times> string) option" where
  "parseUssdDigits [] = None"
| "parseUssdDigits (x # xs) =
     (case match_here (x # xs) of Some m \<Rightarrow> Some m | None \<Rightarrow> parseUssdDigits xs)"

text \<open>
  \<^verbatim>\<open>function fullCode(prefix, base, check) { const p = prefix || '*001*'; return `${p}${base}${check}#`; }\<close>
\<close>

definition fullCode :: "string option \<Rightarrow> string \<Rightarrow> string \<Rightarrow> string" where
  "fullCode prefix b chk = or_str prefix ''*001*'' @ b @ chk @ ''#''"

section \<open>The \<open>ussd_pool\<close> table\<close>

text \<open>
  One row per base; \<open>base\<close> is the primary key. Nullable columns are options;
  \<open>allocated_at\<close> is a point in time, a natural number. The ids are opaque strings:
  the \<open>uuid\<close> type of the id columns is not modelled.
\<close>

record ussd_row =
  base :: string
  checksum :: string
  allocated :: bool
  level :: "string option"
  sacco_id :: "string option"
  matatu_id :: "string option"
  cashier_id :: "string option"
  allocated_at :: "nat option"

type_synonym ussd_pool = "ussd_row list"

text \<open>The primary key: no two rows share a base.\<close>

definition primary_key :: "ussd_pool \<Rightarrow> bool" where
  "primary_key pool = distinct (map base pool)"

text \<open>
  The check constraints of the schema.
  \<^verbatim>\<open>ussd_base_format: check (base ~ '^[0-9]{3}$' and base <> '000')\<close>
  \<^verbatim>\<open>ussd_checksum_format: check (checksum ~ '^[1-9]$')\<close>
\<close>

definition ussd_base_format :: "ussd_row \<Rightarrow> bool" where
  "ussd_base_format r = (length (base r) = 3 \<and> list_all isDigit (base r) \<and> base r \<noteq> ''000'')"

definition ussd_checksum_format :: "ussd_row \<Rightarrow> bool" where
  "ussd_checksum_format r =
     (case checksum r of [c] \<Rightarrow> isDigit c \<and> c \<noteq> CHR ''0'' | _ \<Rightarrow> False)"

text \<open>
  \<^verbatim>\<open>ussd_checksum_matches_base: check ((checksum)::int = ((( substring(base from 1 for 1)::int
      + substring(base from 2 for 1)::int + substring(base from 3 for 1)::int) - 1) % 9) + 1)\<close>
  The operator \<open>%\<close> of the database truncates towards zero (\<open>pg_mod\<close>).
\<close>

definition substring :: "string \<Rightarrow> nat \<Rightarrow> nat \<Rightarrow> string" where
  "substring s from for = take for (drop (from - 1) s)"

definition pg_mod :: "int \<Rightarrow> int \<Rightarrow> int" where
  "pg_mod a b = (if a < 0 then - ((- a) mod \<bar>b\<bar>) else a mod \<bar>b\<bar>)"

definition ussd_checksum_matches_base :: "ussd_row \<Rightarrow> bool" where
  "ussd_checksum_matches_base r =
     (int (sql_int (checksum r)) =
        pg_mod (int (sql_int (substring (base r) 1 1)) + int (sql_int (substring (base r) 2 1))
                + int (sql_int (substring (base r) 3 1)) - 1) 9 + 1)"

text \<open>
  \<^verbatim>\<open>ussd_allocated_fields: check (
    (allocated = false and level is null and sacco_id is null and matatu_id is null and cashier_id is null)
    or
    (allocated = true and (
        (level = 'SACCO'   and sacco_id  is not null and matatu_id is null and cashier_id is null) or
        (level = 'MATATU'  and matatu_id is not null and sacco_id  is null and cashier_id is null) or
        (level = 'CASHIER' and cashier_id is not null and sacco_id is null and matatu_id is null))))\<close>
\<close>

definition ussd_allocated_fields :: "ussd_row \<Rightarrow> bool" where
  "ussd_allocated_fields r =
     ((allocated r = False \<and> level r = None \<and> sacco_id r = None \<and> matatu_id r = None
        \<and> cashier_id r = None)
      \<or>
      (allocated r = True \<and>
        ((level r = Some ''SACCO'' \<and> sacco_id r \<noteq> None \<and> matatu_id r = None
            \<and> cashier_id r = None) \<or>
         (level r = Some ''MATATU'' \<and> matatu_id r \<noteq> None \<and> sacco_id r = None
            \<and> cashier_id r = None) \<or>
         (level r = Some ''CASHIER'' \<and> cashier_id r \<noteq> None \<and> sacco_id r = None
            \<and> matatu_id r = None))))"

text \<open>
  The invariant of a code slot in the words of the specification: a slot is unallocated
  exactly when it has no assigned type and no assigned id, and an allocated slot has
  level SACCO with only \<open>sacco_id\<close> set, or level MATATU with only \<open>matatu_id\<close> set.
\<close>

definition slot_invariant :: "ussd_row \<Rightarrow> bool" where
  "slot_invariant r =
     ((allocated r = False) = (level r = None \<and> sacco_id r = None \<and> matatu_id r = None)
      \<and> (if allocated r
          then (level r = Some ''SACCO'' \<and> sacco_id r \<noteq> None \<and> sacco_id r \<noteq> Some []
                  \<and> matatu_id r = None)
             \<or> (level r = Some ''MATATU'' \<and> matatu_id r \<noteq> None \<and> matatu_id r \<noteq> Some []
                  \<and> sacco_id r = None)
          else True))"

text \<open>
  The rows the seeding script builds from a start that is not negative, inserted into an
  empty table; the other columns take their default, null:
  \<^verbatim>\<open>for (let i = safeStart; i < safeStart + safeCount; i++) {
    const base = String(i).padStart(3, '0');
    rows.push({ base, checksum: digitalRoot(base), allocated: false }); }\<close>
\<close>

definition padStart3 :: "string \<Rightarrow> string" where
  "padStart3 s = replicate (3 - length s) CHR ''0'' @ s"

definition seed_row :: "nat \<Rightarrow> ussd_row" where
  "seed_row i =
     (let b = padStart3 (String_nat i)
      in \<lparr>base = b, checksum = seed_digitalRoot b, allocated = False, level = None,
          sacco_id = None, matatu_id = None, cashier_id = None, allocated_at = None\<rparr>)"

definition seed_rows :: "nat \<Rightarrow> nat \<Rightarrow> ussd_pool" where
  "seed_rows safeStart safeCount = map seed_row [safeStart ..< safeStart + safeCount]"

text \<open>
  The script writes its rows with
  \<^verbatim>\<open>sb.from('ussd_pool').upsert(rows, { onConflict: 'base' })\<close>
  A row whose base is not in the table is inserted. For a row whose base is there
  already, the columns the script gives (\<open>base\<close>, \<open>checksum\<close>, \<open>allocated\<close>) are
  overwritten and the other columns of the stored row are kept. \<open>seed\<close> is the script run
  against a table; \<open>seed_rows\<close> is what it leaves in an empty one. The script does not
  look at the stored row; a table that carries the check constraints of the schema refuses
  a statement that would break one, and that refusal is not part of \<open>seed\<close>.
\<close>

definition upsert :: "ussd_row \<Rightarrow> ussd_pool \<Rightarrow> ussd_pool" where
  "upsert new pool =
     (if base new \<in> set (map base pool)
      then map (\<lambda>r. if base r = base new
                     then r\<lparr>checksum := checksum new, allocated := allocated new\<rparr>
                     else r) pool
      else pool @ [new])"

definition seed :: "nat \<Rightarrow> nat \<Rightarrow> ussd_pool \<Rightarrow> ussd_pool" where
  "seed safeStart safeCount pool =
     foldl (\<lambda>p new. upsert new p) pool (seed_rows safeStart safeCount)"

subsection \<open>The queries of the handlers\<close>

text \<open>
  Each statement sent to the store is carried out at once and as a whole. A statement
  the store cannot carry out (a lost connection, say) makes the handler answer 500 and
  send nothing more; such failures are left out, except the one \<open>maybeSingle\<close> reports
  when it finds several rows.
\<close>

text \<open>
  \<^verbatim>\<open>sb.from('ussd_pool').select('base, checksum').eq('allocated', false)
     .order('base', { ascending: true }).limit(1).maybeSingle()\<close>
  The column is text, ordered as text; the order on strings is the lexicographic one on
  character codes.
\<close>

definition select_next_free :: "ussd_pool \<Rightarrow> (string \<times> string) option" where
  "select_next_free pool =
     (case sort_key base (filter (\<lambda>r. \<not> allocated r) pool) of
        [] \<Rightarrow> None
      | r # _ \<Rightarrow> Some (base r, checksum r))"

text \<open>
  \<^verbatim>\<open>sb.from('ussd_pool').select('allocated, checksum').eq('base', parsed.base).maybeSingle()\<close>
  \<open>maybeSingle\<close> gives null for no row, the row for one row, and an error for more.
\<close>

datatype 'a db_result = Data 'a | Db_error

definition select_by_base :: "string \<Rightarrow> ussd_pool \<Rightarrow> (bool \<times> string) option db_result" where
  "select_by_base b pool =
     (case filter (\<lambda>r. base r = b) pool of
        [] \<Rightarrow> Data None
      | [r] \<Rightarrow> Data (Some (allocated r, checksum r))
      | _ \<Rightarrow> Db_error)"

record target =
  assigned_type :: string
  assigned_id :: string

text \<open>
  \<^verbatim>\<open>sbAdmin.from('ussd_pool').update({
      allocated: true,
      level: assigned_type,
      sacco_id: assigned_type === 'SACCO' ? assigned_id : null,
      matatu_id: assigned_type === 'MATATU' ? assigned_id : null,
      cashier_id: assigned_type === 'CASHIER' ? assigned_id : null,
      allocated_at: new Date().toISOString(),
    }).eq('base', b)\<close>
  The only filter is the base: the update does not look at \<open>allocated\<close>.
\<close>

definition claim_row :: "target \<Rightarrow> nat \<Rightarrow> ussd_row \<Rightarrow> ussd_row" where
  "claim_row t now r =
     r\<lparr>allocated := True,
       level := Some (assigned_type t),
       sacco_id := (if assigned_type t = ''SACCO'' then Some (assigned_id t) else None),
       matatu_id := (if assigned_type t = ''MATATU'' then Some (assigned_id t) else None),
       cashier_id := (if assigned_type t = ''CASHIER'' then Some (assigned_id t) else None),
       allocated_at := Some now\<rparr>"

definition update_claim :: "string \<Rightarrow> target \<Rightarrow> nat \<Rightarrow> ussd_pool \<Rightarrow> ussd_pool" where
  "update_claim b t now pool = map (\<lambda>r. if base r = b then claim_row t now r else r) pool"

section \<open>The handlers\<close>

record ussd_req =
  req_level :: "string option"
  req_sacco_id :: "string option"
  req_matatu_id :: "string option"
  req_cashier_id :: "string option"
  req_ussd_code :: "string option"
  req_prefix :: "string option"

text \<open>A response: the HTTP status and the body, a code on success or an error message.\<close>

datatype body = Success string | Failure string | Store_failure

datatype response = Response nat body

text \<open>
  \<^verbatim>\<open>function resolveTarget(level, ids) {
    const L = String(level || '').toUpperCase();
    if (L === 'MATATU' && ids.matatu_id) return { assigned_type: 'MATATU', assigned_id: ids.matatu_id };
    if (L === 'SACCO' && ids.sacco_id) return { assigned_type: 'SACCO', assigned_id: ids.sacco_id };
    throw new Error('level must be SACCO or MATATU (CASHIER no longer supported)'); }\<close>
  The thrown error is \<open>Inl\<close> with its message.
\<close>

definition resolveTarget :: "string option \<Rightarrow> ussd_req \<Rightarrow> string + target" where
  "resolveTarget lvl ids =
     (let L = toUpperCase (or_str lvl [])
      in if L = ''MATATU'' \<and> truthy (req_matatu_id ids)
         then Inr \<lparr>assigned_type = ''MATATU'', assigned_id = or_str (req_matatu_id ids) []\<rparr>
         else if L = ''SACCO'' \<and> truthy (req_sacco_id ids)
         then Inr \<lparr>assigned_type = ''SACCO'', assigned_id = or_str (req_sacco_id ids) []\<rparr>
         else Inl ''level must be SACCO or MATATU (CASHIER no longer supported)'')"

text \<open>
  \<^verbatim>\<open>function sanitizeErr(e) { const m = e && e.message ? String(e.message) : 'Unexpected error'; return m.length > 300 ? m.slice(0, 300) + '...' : m; }\<close>
  (the source appends a single ellipsis character, three bytes in UTF-8).
\<close>

definition sanitizeErr :: "string \<Rightarrow> string" where
  "sanitizeErr message =
     (let m = (if message \<noteq> [] then message else ''Unexpected error'')
      in if length m > 300 then take 300 m @ [CHR 0xE2, CHR 0x80, CHR 0xA6] else m)"

text \<open>
  The default of the destructuring \<open>prefix = '*001*'\<close> applies to an absent field only.
\<close>

definition prefix_of :: "ussd_req \<Rightarrow> string option" where
  "prefix_of req = (case req_prefix req of None \<Rightarrow> Some ''*001*'' | Some p \<Rightarrow> Some p)"

text \<open>
  \<open>POST /api/admin/ussd/pool/assign-next\<close>. The handler awaits two statements of the
  store, a select and an update. \<open>assign_next_select\<close> is the handler up to and including
  the select: it ends with a response, or with the target and the row to claim.
  \<open>assign_next_update\<close> is the rest: the update and the response.
\<close>

type_synonym selection = "target \<times> string \<times> string"

definition assign_next_select :: "ussd_req \<Rightarrow> ussd_pool \<Rightarrow> response + selection" where
  "assign_next_select req pool =
     (let L = toUpperCase (or_str (req_level req) [])
      in if L = ''CASHIER''
         then Inl (Response 400 (Failure ''CASHIER level no longer supported''))
         else case resolveTarget (req_level req) req of
                Inl message \<Rightarrow> Inl (Response 500 (Failure message))
              | Inr t \<Rightarrow>
                  (case select_next_free pool of
                     None \<Rightarrow> Inl (Response 400 (Failure ''no free codes in pool''))
                   | Some (b, chk) \<Rightarrow> Inr (t, b, chk)))"

definition assign_next_update ::
  "ussd_req \<Rightarrow> nat \<Rightarrow> selection \<Rightarrow> ussd_pool \<Rightarrow> response \<times> ussd_pool" where
  "assign_next_update req now sel pool =
     (case sel of (t, b, chk) \<Rightarrow>
        (Response 200 (Success (fullCode (prefix_of req) b chk)), update_claim b t now pool))"

definition assign_next :: "ussd_req \<Rightarrow> nat \<Rightarrow> ussd_pool \<Rightarrow> response \<times> ussd_pool" where
  "assign_next req now pool =
     (case assign_next_select req pool of
        Inl resp \<Rightarrow> (resp, pool)
      | Inr sel \<Rightarrow> assign_next_update req now sel pool)"

text \<open>
  \<open>POST /api/admin/ussd/bind-from-pool\<close>, split in the same way: everything up to and
  including the select by base, then the update.
\<close>

definition bind_from_pool_select :: "ussd_req \<Rightarrow> ussd_pool \<Rightarrow> response + selection" where
  "bind_from_pool_select req pool =
     (let L = toUpperCase (or_str (req_level req) [])
      in if L = ''CASHIER''
         then Inl (Response 400 (Failure ''CASHIER level no longer supported''))
         else case resolveTarget (req_level req) req of
                Inl message \<Rightarrow> Inl (Response 500 (Failure (sanitizeErr message)))
              | Inr t \<Rightarrow>
                  (case parseUssdDigits (String_opt (req_ussd_code req)) of
                     None \<Rightarrow> Inl (Response 400 (Failure ''invalid code format''))
                   | Some (b, chk) \<Rightarrow>
                       (let want = String_nat (digitalRoot b)
                        in if want \<noteq> chk
                           then Inl (Response 400 (Failure (''checksum mismatch; expected '' @ want)))
                           else case select_by_base b pool of
                                  Db_error \<Rightarrow> Inl (Response 500 Store_failure)
                                | Data None \<Rightarrow> Inl (Response 400 (Failure ''base not in pool''))
                                | Data (Some (alloc, _)) \<Rightarrow>
                                    if alloc then Inl (Response 400 (Failure ''already allocated''))
                                    else Inr (t, b, chk))))"

definition bind_from_pool_update ::
  "ussd_req \<Rightarrow> nat \<Rightarrow> selection \<Rightarrow> ussd_pool \<Rightarrow> response \<times> ussd_pool" where
  "bind_from_pool_update req now sel pool =
     (case sel of (t, b, chk) \<Rightarrow>
        (Response 200 (Success (fullCode (prefix_of req) b chk)), update_claim b t now pool))"

definition bind_from_pool :: "ussd_req \<Rightarrow> nat \<Rightarrow> ussd_pool \<Rightarrow> response \<times> ussd_pool" where
  "bind_from_pool req now pool =
     (case bind_from_pool_select req pool of
        Inl resp \<Rightarrow> (resp, pool)
      | Inr sel \<Rightarrow> bind_from_pool_update req now sel pool)"

section \<open>Requests running concurrently\<close>

text \<open>
  The server runs handlers on one thread; a handler gives way to the others at each
  \<open>await\<close>, that is, around each statement it sends to the store. A task is a request in
  one of three states: not started, between its select and its update, finished. A
  schedule names the task that moves next; the clock gives each update its time.
\<close>

datatype route = Assign_next | Bind_from_pool

datatype task = Ready route ussd_req | Awaiting route ussd_req selection | Finished response

fun step :: "nat \<Rightarrow> task \<Rightarrow> ussd_pool \<Rightarrow> task \<times> ussd_pool" where
  "step now (Ready Assign_next req) pool =
     (case assign_next_select req pool of
        Inl resp \<Rightarrow> (Finished resp, pool)
      | Inr sel \<Rightarrow> (Awaiting Assign_next req sel, pool))"
| "step now (Ready Bind_from_pool req) pool =
     (case bind_from_pool_select req pool of
        Inl resp \<Rightarrow> (Finished resp, pool)
      | Inr sel \<Rightarrow> (Awaiting Bind_from_pool req sel, pool))"
| "step now (Awaiting Assign_next req sel) pool =
     (case assign_next_update req now sel pool of (resp, pool') \<Rightarrow> (Finished resp, pool'))"
| "step now (Awaiting Bind_from_pool req sel) pool =
     (case bind_from_pool_update req now sel pool of (resp, pool') \<Rightarrow> (Finished resp, pool'))"
| "step now (Finished resp) pool = (Finished resp, pool)"

fun run :: "nat list \<Rightarrow> task list \<times> ussd_pool \<times> nat \<Rightarrow> task list \<times> ussd_pool \<times> nat" where
  "run [] cfg = cfg"
| "run (i # sched) (ts, pool, clock) =
     (if i < length ts
      then case step clock (ts ! i) pool of
             (t', pool') \<Rightarrow> run sched (ts[i := t'], pool', Suc clock)
      else run sched (ts, pool, clock))"

fun is_Ready :: "task \<Rightarrow> bool" where
  "is_Ready (Ready k req) = True"
| "is_Ready _ = False"

text \<open>The first half of a handler, by route, and the whole handler, by route.\<close>

definition selects :: "route \<Rightarrow> ussd_req \<Rightarrow> ussd_pool \<Rightarrow> response + selection" where
  "selects k req pool =
     (case k of Assign_next \<Rightarrow> assign_next_select req pool
              | Bind_from_pool \<Rightarrow> bind_from_pool_select req pool)"

definition handle :: "route \<Rightarrow> ussd_req \<Rightarrow> nat \<Rightarrow> ussd_pool \<Rightarrow> response \<times> ussd_pool" where
  "handle k req now pool =
     (case k of Assign_next \<Rightarrow> assign_next req now pool
              | Bind_from_pool \<Rightarrow> bind_from_pool req now pool)"

section \<open>Predicates of the statements\<close>

text \<open>
  \<open>match_at s i\<close>: at offset \<open>i\<close> of \<open>s\<close> there is a run of three digits followed by a
  fourth digit, with \<open>#\<close> or the end of the string immediately after.
\<close>

definition match_at :: "string \<Rightarrow> nat \<Rightarrow> bool" where
  "match_at s i =
     (i + 4 \<le> length s \<and> isDigit (s ! i) \<and> isDigit (s ! (i + 1)) \<and> isDigit (s ! (i + 2))
      \<and> isDigit (s ! (i + 3)) \<and> (i + 4 = length s \<or> s ! (i + 4) = CHR ''#''))"

text \<open>
  The two responses to a level that is not supported: the guard of the handlers for
  CASHIER, and the error \<open>resolveTarget\<close> throws for every other level, caught by the
  handler.
\<close>

definition unsupported_level :: "string \<Rightarrow> response" where
  "unsupported_level L =
     (if L = ''CASHIER'' then Response 400 (Failure ''CASHIER level no longer supported'')
      else Response 500 (Failure ''level must be SACCO or MATATU (CASHIER no longer supported)''))"

text \<open>A row holds a target: it is allocated, at the level of the target, to its id.\<close>

definition holds_target :: "target \<Rightarrow> ussd_row \<Rightarrow> bool" where
  "holds_target t r =
     (allocated r \<and> level r = Some (assigned_type t)
      \<and> sacco_id r = (if assigned_type t = ''SACCO'' then Some (assigned_id t) else None)
      \<and> matatu_id r = (if assigned_type t = ''MATATU'' then Some (assigned_id t) else None))"

text \<open>
  What \<open>resolveTarget\<close> returns: the type is SACCO or MATATU and the id is not empty. A
  task between its select and its update carries such a target.
\<close>

definition valid_target :: "target \<Rightarrow> bool" where
  "valid_target t =
     ((assigned_type t = ''SACCO'' \<or> assigned_type t = ''MATATU'') \<and> assigned_id t \<noteq> [])"

fun task_ok :: "task \<Rightarrow> bool" where
  "task_ok (Awaiting k req (t, b, chk)) = valid_target t"
| "task_ok _ = True"

definition row_ok :: "ussd_row \<Rightarrow> bool" where
  "row_ok r = (slot_invariant r \<and> ussd_allocated_fields r)"

section \<open>Example pools and requests\<close>

definition pool_110 :: ussd_pool where
  "pool_110 = [\<lparr>base = ''110'', checksum = ''2'', allocated = False, level = None,
      sacco_id = None, matatu_id = None, cashier_id = None, allocated_at = None\<rparr>]"

definition req_cashier :: ussd_req where
  "req_cashier = \<lparr>req_level = Some ''CASHIER'', req_sacco_id = None, req_matatu_id = None,
      req_cashier_id = Some ''K1'', req_ussd_code = Some ''*001*1109#'', req_prefix = None\<rparr>"

definition free_row :: "string \<Rightarrow> string \<Rightarrow> ussd_row" where
  "free_row b chk = \<lparr>base = b, checksum = chk, allocated = False, level = None,
      sacco_id = None, matatu_id = None, cashier_id = None, allocated_at = None\<rparr>"

definition row_110_A1 :: ussd_row where
  "row_110_A1 = \<lparr>base = ''110'', checksum = ''2'', allocated = True, level = Some ''SACCO'',
      sacco_id = Some ''A1'', matatu_id = None, cashier_id = None, allocated_at = Some 5\<rparr>"

definition req_sacco_A1 :: ussd_req where
  "req_sacco_A1 = \<lparr>req_level = Some ''SACCO'', req_sacco_id = Some ''A1'', req_matatu_id = None,
      req_cashier_id = None, req_ussd_code = None, req_prefix = None\<rparr>"

definition req_bind_M1 :: "string \<Rightarrow> ussd_req" where
  "req_bind_M1 code = \<lparr>req_level = Some ''MATATU'', req_sacco_id = None,
      req_matatu_id = Some ''M1'', req_cashier_id = None, req_ussd_code = Some code,
      req_prefix = None\<rparr>"

definition target_M1 :: target where
  "target_M1 = \<lparr>assigned_type = ''MATATU'', assigned_id = ''M1''\<rparr>"

definition target_A1 :: target where
  "target_A1 = \<lparr>assigned_type = ''SACCO'', assigned_id = ''A1''\<rparr>"


definition req_matatu_M1 :: ussd_req where
  "req_matatu_M1 = \<lparr>req_level = Some ''matatu'', req_sacco_id = None, req_matatu_id = Some ''M1'',
      req_cashier_id = None, req_ussd_code = None, req_prefix = None\<rparr>"

definition pool_2 :: ussd_pool where
  "pool_2 = [free_row ''110'' ''2'', free_row ''115'' ''7'']"

definition req_bind_A1 :: "string \<Rightarrow> ussd_req" where
  "req_bind_A1 code = \<lparr>req_level = Some ''SACCO'', req_sacco_id = Some ''A1'',
      req_matatu_id = None, req_cashier_id = None, req_ussd_code = Some code,
      req_prefix = None\<rparr>"

definition claimed_row :: "string \<Rightarrow> string \<Rightarrow> target \<Rightarrow> nat \<Rightarrow> ussd_row" where
  "claimed_row b chk t now = claim_row t now (free_row b chk)"

section \<open>Facts about the digit sum\<close>

subsection \<open>The digit sum modulo 9\<close>

lemma or_zero_Number_digit_val: "or_zero (Number_char c) = digit_val c"
  by (auto simp: or_zero_def Number_char_def digit_val_def split: option.splits)

lemma sumDigits_sum_list: "sumDigits b = sum_list (map digit_val b)"
  by (induction b) (simp_all add: sumDigits_Nil sumDigits_Cons or_zero_Number_digit_val)

lemma digit_val_nondigit: "\<not> isDigit c \<Longrightarrow> digit_val c = 0"
  by (simp add: isDigit_def digit_val_def)

lemma sumDigits_String_nat_mod9: "sumDigits (String_nat n) mod 9 = n mod 9"
proof (induction n rule: less_induct)
  case (less n)
  show ?case
  proof (cases "n < 10")
    case True
    then show ?thesis by (simp add: sumDigits_String_nat_small)
  next
    case False
    then have ge: "10 \<le> n" by simp
    then have "n div 10 < n" by simp
    then have ih: "sumDigits (String_nat (n div 10)) mod 9 = (n div 10) mod 9" by (rule less.IH)
    have "(sumDigits (String_nat (n div 10)) + n mod 10) mod 9 = (n div 10 + n mod 10) mod 9"
      using ih by (metis mod_add_left_eq)
    also have "\<dots> = (9 * (n div 10) + (n div 10 + n mod 10)) mod 9"
      by (simp only: mod_mult_self4)
    also have "9 * (n div 10) + (n div 10 + n mod 10) = n"
      using div_mult_mod_eq [of n 10] by linarith
    finally show ?thesis using ge by (simp add: sumDigits_String_nat_step)
  qed
qed

lemma sumDigits_String_nat_pos: "0 < n \<Longrightarrow> 0 < sumDigits (String_nat n)"
proof (induction n rule: less_induct)
  case (less n)
  show ?case
  proof (cases "n < 10")
    case True
    then show ?thesis using less.prems by (simp add: sumDigits_String_nat_small)
  next
    case False
    then have ge: "10 \<le> n" by simp
    then have "n div 10 < n" "0 < n div 10" by simp_all
    then have "0 < sumDigits (String_nat (n div 10))" by (rule less.IH)
    then show ?thesis using ge by (simp add: sumDigits_String_nat_step)
  qed
qed

lemma mod9_pred_cong:
  fixes a b :: nat
  assumes "a mod 9 = b mod 9" "0 < a" "0 < b"
  shows "(a - 1) mod 9 = (b - 1) mod 9"
proof -
  obtain a' b' where ab: "a = Suc a'" "b = Suc b'"
    using assms(2,3) by (metis Suc_pred)
  have eq: "(a' + 1) mod 9 = (b' + 1) mod 9" using assms(1) ab by simp
  have shift: "x mod 9 = ((x + 1) mod 9 + 8) mod 9" for x :: nat
  proof -
    have "((x + 1) mod 9 + 8) mod 9 = (x + 1 + 8) mod 9" by (simp only: mod_add_left_eq)
    also have "x + 1 + 8 = x + 9" by simp
    also have "(x + 9) mod 9 = x mod 9" by simp
    finally show ?thesis by simp
  qed
  have "a' mod 9 = b' mod 9" using shift [of a'] shift [of b'] eq by simp
  then show ?thesis using ab by simp
qed

lemma digitalRoot_loop_closed:
  "digitalRoot_loop s = (if s = 0 then 0 else 1 + (s - 1) mod 9)"
proof (induction s rule: digitalRoot_loop.induct)
  case (1 s)
  show ?case
  proof (cases "9 < s")
    case False
    then show ?thesis by (subst digitalRoot_loop.simps) auto
  next
    case True
    let ?t = "sumDigits (String_nat s)"
    have pos: "0 < ?t" using True by (simp add: sumDigits_String_nat_pos)
    have "digitalRoot_loop s = digitalRoot_loop ?t"
      using True by (subst digitalRoot_loop.simps) simp
    also have "\<dots> = 1 + (?t - 1) mod 9" using "1.IH" [OF True] pos by simp
    also have "(?t - 1) mod 9 = (s - 1) mod 9"
      using pos True by (intro mod9_pred_cong sumDigits_String_nat_mod9) simp_all
    finally show ?thesis using True by simp
  qed
qed

lemma digitalRoot_loop_le9: "digitalRoot_loop s \<le> 9"
proof -
  have "(s - 1) mod 9 < 9" by simp
  then show ?thesis unfolding digitalRoot_loop_closed by (simp del: mod_less_divisor)
qed

lemma digitalRoot_loop_pos: "0 < s \<Longrightarrow> 1 \<le> digitalRoot_loop s"
  by (simp add: digitalRoot_loop_closed)

section \<open>Facts about the checksum\<close>

lemma sql_int3: "sql_int [c1, c2, c3] = 100 * digit_val c1 + 10 * digit_val c2 + digit_val c3"
  by (simp add: sql_int_def)

lemma sql_int3_mod9:
  "sql_int [c1, c2, c3] mod 9 = (digit_val c1 + digit_val c2 + digit_val c3) mod 9"
proof -
  let ?s = "digit_val c1 + digit_val c2 + digit_val c3"
  have "sql_int [c1, c2, c3] = 9 * (11 * digit_val c1 + digit_val c2) + ?s"
    by (simp add: sql_int3)
  then show ?thesis by (simp only: mod_mult_self4)
qed

lemma sql_int3_zero:
  "sql_int [c1, c2, c3] = 0 \<longleftrightarrow> digit_val c1 + digit_val c2 + digit_val c3 = 0"
  by (simp add: sql_int3)

lemma isDigit_000:
  assumes "isDigit c1" "isDigit c2" "isDigit c3"
  shows "[c1, c2, c3] = ''000'' \<longleftrightarrow> digit_val c1 + digit_val c2 + digit_val c3 = 0"
proof -
  have z: "isDigit c \<Longrightarrow> digit_val c = 0 \<longleftrightarrow> c = CHR ''0''" for c
    by (auto simp: isDigit_def digit_val_def digit_of_def split: if_splits)
  show ?thesis using assms by (auto simp: z)
qed

lemma String_nat_digit: "n < 10 \<Longrightarrow> String_nat n = [digit_char n]"
  by (subst String_nat.simps) simp

section \<open>Facts about the parser\<close>

lemma match_here_Some_iff:
  "match_here s = Some (b, c) \<longleftrightarrow> match_at s 0 \<and> b = take 3 s \<and> c = [s ! 3]"
proof (cases s rule: match_here.cases)
  case (1 a b' c' d rest)
  then show ?thesis
    by (cases rest) (auto simp: match_at_def)
qed (simp_all add: match_at_def)

lemma match_here_None_iff: "match_here s = None \<longleftrightarrow> \<not> match_at s 0"
proof (cases s rule: match_here.cases)
  case (1 a b' c' d rest)
  then show ?thesis
    by (cases rest) (auto simp: match_at_def)
qed (simp_all add: match_at_def)

lemma match_at_Cons_Suc: "match_at (x # xs) (Suc i) = match_at xs i"
  by (simp add: match_at_def add.commute)

lemma match_at_Nil: "\<not> match_at [] i"
  by (simp add: match_at_def)

lemma parseUssdDigits_None_iff: "parseUssdDigits s = None \<longleftrightarrow> (\<forall>i. \<not> match_at s i)"
proof (induction s)
  case Nil
  show ?case by (simp add: match_at_Nil)
next
  case (Cons x xs)
  show ?case
  proof (cases "match_here (x # xs)")
    case None
    then have n0: "\<not> match_at (x # xs) 0" by (simp add: match_here_None_iff)
    have "(\<forall>i. \<not> match_at (x # xs) i) \<longleftrightarrow> (\<forall>i. \<not> match_at xs i)"
    proof
      assume a: "\<forall>i. \<not> match_at (x # xs) i"
      show "\<forall>i. \<not> match_at xs i"
      proof
        fix i show "\<not> match_at xs i" using a [rule_format, of "Suc i"] by (simp add: match_at_Cons_Suc)
      qed
    next
      assume a: "\<forall>i. \<not> match_at xs i"
      show "\<forall>i. \<not> match_at (x # xs) i"
      proof
        fix i show "\<not> match_at (x # xs) i"
          using a n0 by (cases i) (simp_all add: match_at_Cons_Suc)
      qed
    qed
    then show ?thesis using None Cons.IH by simp
  next
    case (Some m)
    then obtain b c where "match_here (x # xs) = Some (b, c)" by (cases m) simp
    then have "match_at (x # xs) 0" by (simp add: match_here_Some_iff)
    then show ?thesis using Some by auto
  qed
qed

lemma parseUssdDigits_Some_leftmost:
  "parseUssdDigits s = Some (b, c) \<Longrightarrow>
     \<exists>i. match_at s i \<and> (\<forall>j. j < i \<longrightarrow> \<not> match_at s j) \<and> b = take 3 (drop i s) \<and> c = [s ! (i + 3)]"
proof (induction s)
  case Nil
  then show ?case by simp
next
  case (Cons x xs)
  show ?case
  proof (cases "match_here (x # xs)")
    case None
    then have n0: "\<not> match_at (x # xs) 0" by (simp add: match_here_None_iff)
    from None Cons.prems have "parseUssdDigits xs = Some (b, c)" by simp
    then obtain i where i: "match_at xs i" "\<forall>j. j < i \<longrightarrow> \<not> match_at xs j"
      "b = take 3 (drop i xs)" "c = [xs ! (i + 3)]"
      using Cons.IH by blast
    have "\<not> match_at (x # xs) j" if "j < Suc i" for j
      using that n0 i(2) by (cases j) (simp_all add: match_at_Cons_Suc)
    then have "match_at (x # xs) (Suc i) \<and> (\<forall>j. j < Suc i \<longrightarrow> \<not> match_at (x # xs) j)
        \<and> b = take 3 (drop (Suc i) (x # xs)) \<and> c = [(x # xs) ! (Suc i + 3)]"
      using i by (simp add: match_at_Cons_Suc add.commute)
    then show ?thesis by blast
  next
    case (Some m)
    with Cons.prems have "match_here (x # xs) = Some (b, c)" by simp
    then have "match_at (x # xs) 0 \<and> (\<forall>j. j < (0::nat) \<longrightarrow> \<not> match_at (x # xs) j)
        \<and> b = take 3 (drop 0 (x # xs)) \<and> c = [(x # xs) ! (0 + 3)]"
      by (simp add: match_here_Some_iff)
    then show ?thesis by blast
  qed
qed

lemma leftmost_unique:
  assumes "match_at s i" "\<forall>j. j < i \<longrightarrow> \<not> match_at s j"
    and "match_at s k" "\<forall>j. j < k \<longrightarrow> \<not> match_at s j"
  shows "i = k"
  using assms by (meson nat_neq_iff)

lemma isDigit_simps:
  "isDigit CHR ''0''" "isDigit CHR ''1''" "isDigit CHR ''2''" "isDigit CHR ''3''" "isDigit CHR ''4''"
  "isDigit CHR ''5''" "isDigit CHR ''6''" "isDigit CHR ''7''" "isDigit CHR ''8''" "isDigit CHR ''9''"
  "\<not> isDigit CHR ''#''" "\<not> isDigit CHR ''*''"
  by (simp_all add: isDigit_def digit_of_def)

section \<open>Facts about the handlers\<close>

lemma upper_sacco: "toUpperCase ''sacco'' = ''SACCO''"
  by (simp add: toUpperCase_def upper_char_def)

lemma resolveTarget_Inr:
  "resolveTarget lvl ids = Inr t \<Longrightarrow>
     (toUpperCase (or_str lvl []) = ''MATATU'' \<and> truthy (req_matatu_id ids)
        \<and> t = \<lparr>assigned_type = ''MATATU'', assigned_id = or_str (req_matatu_id ids) []\<rparr>)
   \<or> (toUpperCase (or_str lvl []) = ''SACCO'' \<and> truthy (req_sacco_id ids)
        \<and> t = \<lparr>assigned_type = ''SACCO'', assigned_id = or_str (req_sacco_id ids) []\<rparr>)"
  by (auto simp: resolveTarget_def Let_def split: if_splits)

lemma resolveTarget_not_CASHIER:
  "resolveTarget lvl ids = Inr t \<Longrightarrow> toUpperCase (or_str lvl []) \<noteq> ''CASHIER''"
  by (auto dest!: resolveTarget_Inr)

lemma resolveTarget_unsupported:
  "toUpperCase (or_str lvl []) \<noteq> ''SACCO'' \<Longrightarrow> toUpperCase (or_str lvl []) \<noteq> ''MATATU'' \<Longrightarrow>
     resolveTarget lvl ids = Inl ''level must be SACCO or MATATU (CASHIER no longer supported)''"
  by (simp add: resolveTarget_def Let_def)

lemma sanitizeErr_level:
  "sanitizeErr ''level must be SACCO or MATATU (CASHIER no longer supported)''
     = ''level must be SACCO or MATATU (CASHIER no longer supported)''"
  by (simp add: sanitizeErr_def)

lemma assign_next_select_unsupported:
  assumes "toUpperCase (or_str (req_level req) []) \<noteq> ''SACCO''"
    and "toUpperCase (or_str (req_level req) []) \<noteq> ''MATATU''"
  shows "assign_next_select req pool = Inl (unsupported_level (toUpperCase (or_str (req_level req) [])))"
  using assms
  by (simp add: assign_next_select_def Let_def resolveTarget_unsupported unsupported_level_def)

lemma bind_from_pool_select_unsupported:
  assumes "toUpperCase (or_str (req_level req) []) \<noteq> ''SACCO''"
    and "toUpperCase (or_str (req_level req) []) \<noteq> ''MATATU''"
  shows "bind_from_pool_select req pool = Inl (unsupported_level (toUpperCase (or_str (req_level req) [])))"
  using assms
  by (simp add: bind_from_pool_select_def Let_def resolveTarget_unsupported unsupported_level_def
      sanitizeErr_level)

lemma upper_CASHIER: "toUpperCase ''CASHIER'' = ''CASHIER''"
  by (simp add: toUpperCase_def upper_char_def)

lemma match_at_append_code:
  assumes "q \<noteq> []" "\<not> match_at q 0" "isDigit b" "isDigit c" "isDigit d"
  shows "\<not> match_at (q @ [a, b, c, d, CHR ''#'']) 0"
proof
  let ?s = "[a, b, c, d, CHR ''#'']"
  assume m: "match_at (q @ ?s) 0"
  have nd: "\<not> isDigit CHR ''#''" by (simp add: isDigit_simps)
  have "1 \<le> length q" using assms(1) by (cases q) simp_all
  then consider "length q = 1" | "length q = 2" | "length q = 3" | "length q = 4" | "5 \<le> length q"
    by linarith
  then show False
  proof cases
    case 1
    then have "(q @ ?s) ! 4 = d" by (simp add: nth_append)
    with m assms nd show False by (auto simp: match_at_def)
  next
    case 2
    then have "(q @ ?s) ! 4 = c" by (simp add: nth_append)
    with m assms nd show False by (auto simp: match_at_def)
  next
    case 3
    then have "(q @ ?s) ! 4 = b" by (simp add: nth_append)
    with m assms nd show False by (auto simp: match_at_def)
  next
    case 4
    then have "match_at q 0" using m assms(1) by (simp add: match_at_def nth_append)
    with assms show False by simp
  next
    case 5
    then have "match_at q 0" using m assms(1) by (simp add: match_at_def nth_append)
    with assms show False by simp
  qed
qed

lemma parseUssdDigits_prefixed:
  assumes "parseUssdDigits p = None" "isDigit a" "isDigit b" "isDigit c" "isDigit d"
  shows "parseUssdDigits (p @ [a, b, c, d, CHR ''#'']) = Some ([a, b, c], [d])"
  using assms(1)
proof (induction p)
  case Nil
  show ?case using assms by simp
next
  case (Cons x p)
  from Cons.prems have mh: "match_here (x # p) = None" and rest: "parseUssdDigits p = None"
    by (auto split: option.splits)
  have "\<not> match_at ((x # p) @ [a, b, c, d, CHR ''#'']) 0"
    using mh assms by (intro match_at_append_code) (simp_all add: match_here_None_iff)
  then have "match_here ((x # p) @ [a, b, c, d, CHR ''#'']) = None"
    by (simp add: match_here_None_iff)
  then show ?case using Cons.IH [OF rest] by simp
qed

lemma parseUssdDigits_default_prefix: "parseUssdDigits ''*001*'' = None"
  by (simp add: isDigit_simps)

lemma digit_char_digit_val: "isDigit k \<Longrightarrow> digit_char (digit_val k) = k"
  by (auto simp: isDigit_def digit_val_def digit_of_def digit_char_def split: if_splits)

lemma String_nat_digit_val: "isDigit k \<Longrightarrow> String_nat (digit_val k) = [k]"
  using digit_val_le9 [of k] by (simp add: String_nat_digit digit_char_digit_val)

lemma digitalRoot_three:
  "digitalRoot [c1, c2, c3] =
     (if digit_val c1 + digit_val c2 + digit_val c3 = 0 then 0
      else 1 + (digit_val c1 + digit_val c2 + digit_val c3 - 1) mod 9)"
proof -
  have "sumDigits [c1, c2, c3] = digit_val c1 + digit_val c2 + digit_val c3"
    by (simp add: sumDigits_sum_list)
  then show ?thesis unfolding digitalRoot_def by (simp only: digitalRoot_loop_closed)
qed

lemma base_format_digits:
  assumes "ussd_base_format r"
  obtains c1 c2 c3 where "base r = [c1, c2, c3]" "isDigit c1" "isDigit c2" "isDigit c3"
    "digit_val c1 + digit_val c2 + digit_val c3 \<noteq> 0"
proof -
  from assms have len: "length (base r) = 3" and dig: "list_all isDigit (base r)"
    and nz: "base r \<noteq> ''000''" by (simp_all add: ussd_base_format_def)
  from len obtain c1 c2 c3 where b: "base r = [c1, c2, c3]"
    by (auto simp: numeral_3_eq_3 length_Suc_conv)
  with dig have d: "isDigit c1" "isDigit c2" "isDigit c3" by simp_all
  have "digit_val c1 + digit_val c2 + digit_val c3 \<noteq> 0"
    using isDigit_000 [OF d] nz b by simp
  with b d show ?thesis by (rule that)
qed

lemma sql_int_single: "sql_int [c] = digit_val c"
  by (simp add: sql_int_def)

lemma pg_mod_nat: "pg_mod (int n) 9 = int (n mod 9)"
proof -
  have "int (n mod 9) = int n mod 9" using zmod_int [of n 9] by simp
  then show ?thesis by (simp add: pg_mod_def)
qed

lemma checksum_matches_three:
  assumes "base r = [c1, c2, c3]" "checksum r = [k]" "ussd_checksum_matches_base r"
    and "1 \<le> digit_val c1 + digit_val c2 + digit_val c3"
  shows "digit_val k = 1 + (digit_val c1 + digit_val c2 + digit_val c3 - 1) mod 9"
proof -
  let ?s = "digit_val c1 + digit_val c2 + digit_val c3"
  have e: "int (digit_val c1) + int (digit_val c2) + int (digit_val c3) - 1 = int (?s - 1)"
    using assms(4) by linarith
  have "int (digit_val k) = pg_mod (int (?s - 1)) 9 + 1"
    using assms(3) unfolding ussd_checksum_matches_base_def assms(1,2) substring_def e [symmetric]
    by (simp add: sql_int_single)
  then have "int (digit_val k) = int (1 + (?s - 1) mod 9)"
    by (simp add: pg_mod_nat)
  then show ?thesis by (simp only: of_nat_eq_iff)
qed

lemma constraints_checksum:
  assumes "ussd_base_format r" "ussd_checksum_format r" "ussd_checksum_matches_base r"
  shows "checksum r = String_nat (digitalRoot (base r))"
proof -
  from assms(1) obtain c1 c2 c3 where b: "base r = [c1, c2, c3]"
    and d: "isDigit c1" "isDigit c2" "isDigit c3"
    and nz: "digit_val c1 + digit_val c2 + digit_val c3 \<noteq> 0"
    by (rule base_format_digits)
  from assms(2) obtain k where k: "checksum r = [k]" "isDigit k"
    by (auto simp: ussd_checksum_format_def split: list.splits)
  have pos: "1 \<le> digit_val c1 + digit_val c2 + digit_val c3" using nz by linarith
  have "digit_val k = 1 + (digit_val c1 + digit_val c2 + digit_val c3 - 1) mod 9"
    using b k(1) assms(3) pos by (rule checksum_matches_three)
  also have "\<dots> = digitalRoot (base r)"
    unfolding b digitalRoot_three using nz by (simp only: if_False)
  finally have "String_nat (digitalRoot (base r)) = String_nat (digit_val k)" by simp
  then show ?thesis using k by (simp add: String_nat_digit_val)
qed

lemma filter_key_single:
  "distinct (map f xs) \<Longrightarrow> x \<in> set xs \<Longrightarrow> filter (\<lambda>y. f y = f x) xs = [x]"
proof (induction xs)
  case Nil
  then show ?case by simp
next
  case (Cons y ys)
  show ?case
  proof (cases "x = y")
    case True
    have "filter (\<lambda>z. f z = f y) ys = []"
      using Cons.prems(1) by (auto simp: filter_empty_conv) (metis image_eqI)
    then show ?thesis using True by simp
  next
    case False
    then have "x \<in> set ys" using Cons.prems(2) by simp
    moreover have "f y \<noteq> f x" using Cons.prems(1) \<open>x \<in> set ys\<close> by auto
    ultimately show ?thesis using Cons by simp
  qed
qed

lemma select_by_base_found:
  "primary_key pool \<Longrightarrow> r \<in> set pool \<Longrightarrow>
     select_by_base (base r) pool = Data (Some (allocated r, checksum r))"
  by (simp add: select_by_base_def primary_key_def filter_key_single)

lemma bind_from_pool_select_valid:
  assumes "resolveTarget (req_level req) req = Inr t"
  shows "bind_from_pool_select req pool =
     (case parseUssdDigits (String_opt (req_ussd_code req)) of
        None \<Rightarrow> Inl (Response 400 (Failure ''invalid code format''))
      | Some (b, chk) \<Rightarrow>
          (if String_nat (digitalRoot b) \<noteq> chk
           then Inl (Response 400 (Failure (''checksum mismatch; expected '' @ String_nat (digitalRoot b))))
           else case select_by_base b pool of
                  Db_error \<Rightarrow> Inl (Response 500 Store_failure)
                | Data None \<Rightarrow> Inl (Response 400 (Failure ''base not in pool''))
                | Data (Some (alloc, _)) \<Rightarrow>
                    if alloc then Inl (Response 400 (Failure ''already allocated''))
                    else Inr (t, b, chk)))"
  using assms resolveTarget_not_CASHIER [OF assms]
  by (simp add: bind_from_pool_select_def Let_def split: option.split prod.split)

lemma upper_MATATU: "toUpperCase ''MATATU'' = ''MATATU''"
  by (simp add: toUpperCase_def upper_char_def)

lemma upper_SACCO_id: "toUpperCase ''SACCO'' = ''SACCO''"
  by (simp add: toUpperCase_def upper_char_def)

lemma resolveTarget_req_bind_M1:
  "resolveTarget (req_level (req_bind_M1 code)) (req_bind_M1 code) = Inr target_M1"
  by (simp add: resolveTarget_def req_bind_M1_def or_str_def truthy_def upper_MATATU target_M1_def)

lemma resolveTarget_req_sacco_A1:
  "resolveTarget (req_level req_sacco_A1) req_sacco_A1 = Inr target_A1"
  by (simp add: resolveTarget_def req_sacco_A1_def or_str_def truthy_def upper_SACCO_id target_A1_def)

lemma digitalRoot_110: "digitalRoot ''110'' = 2"
  by (simp add: digitalRoot_three digit_val_def digit_of_def)

lemma String_nat_2: "String_nat 2 = ''2''"
  by (simp add: String_nat_digit digit_char_def)

lemma assign_next_valid:
  assumes "resolveTarget (req_level req) req = Inr t"
  shows "assign_next req now pool =
     (case select_next_free pool of
        None \<Rightarrow> (Response 400 (Failure ''no free codes in pool''), pool)
      | Some (b, chk) \<Rightarrow>
          (Response 200 (Success (fullCode (prefix_of req) b chk)), update_claim b t now pool))"
  using assms resolveTarget_not_CASHIER [OF assms]
  by (simp add: assign_next_def assign_next_select_def assign_next_update_def Let_def
      split: option.split prod.split)

lemma assign_next_110:
  "assign_next req_sacco_A1 5 pool_110 = (Response 200 (Success ''*001*1102#''), [row_110_A1])"
  unfolding assign_next_valid [OF resolveTarget_req_sacco_A1]
  by (simp add: select_next_free_def pool_110_def update_claim_def claim_row_def target_A1_def
      row_110_A1_def fullCode_def prefix_of_def req_sacco_A1_def or_str_def)






lemma sort_key_head_min:
  assumes "sort_key f xs = y # ys"
  shows "y \<in> set xs \<and> (\<forall>x\<in>set xs. f y \<le> f x)"
proof -
  have s: "sorted (map f (sort_key f xs))" by (rule sorted_sort_key)
  have e: "set (sort_key f xs) = set xs" by simp
  from e assms have y: "y \<in> set xs" by auto
  have "f y \<le> f x" if "x \<in> set xs" for x
  proof -
    from that e assms have "x = y \<or> x \<in> set ys" by auto
    then show ?thesis using s assms by auto
  qed
  with y show ?thesis by blast
qed

lemma select_next_free_Some:
  assumes "\<exists>r\<in>set pool. \<not> allocated r"
  obtains r where "r \<in> set pool" "\<not> allocated r"
    "\<forall>r'\<in>set pool. \<not> allocated r' \<longrightarrow> base r \<le> base r'"
    "select_next_free pool = Some (base r, checksum r)"
proof -
  let ?free = "filter (\<lambda>r. \<not> allocated r) pool"
  from assms have "?free \<noteq> []" by (auto simp: filter_empty_conv)
  then have "sort_key base ?free \<noteq> []"
    by (metis length_sort length_0_conv)
  then obtain r rs where srt: "sort_key base ?free = r # rs" by (cases "sort_key base ?free") auto
  from sort_key_head_min [OF srt] have "r \<in> set ?free" "\<forall>x\<in>set ?free. base r \<le> base x" by auto
  then have "r \<in> set pool" "\<not> allocated r" "\<forall>r'\<in>set pool. \<not> allocated r' \<longrightarrow> base r \<le> base r'"
    by auto
  moreover have "select_next_free pool = Some (base r, checksum r)"
    by (simp add: select_next_free_def srt)
  ultimately show ?thesis by (rule that)
qed

lemma select_next_free_None:
  "select_next_free pool = None \<longleftrightarrow> (\<forall>r\<in>set pool. allocated r)"
proof
  assume n: "select_next_free pool = None"
  show "\<forall>r\<in>set pool. allocated r"
  proof (rule ccontr)
    assume "\<not> (\<forall>r\<in>set pool. allocated r)"
    then have "\<exists>r\<in>set pool. \<not> allocated r" by simp
    then obtain r where "r \<in> set pool" "\<not> allocated r"
      "\<forall>r'\<in>set pool. \<not> allocated r' \<longrightarrow> base r \<le> base r'"
      "select_next_free pool = Some (base r, checksum r)"
      by (rule select_next_free_Some)
    with n show False by simp
  qed
next
  assume "\<forall>r\<in>set pool. allocated r"
  then have "filter (\<lambda>r. \<not> allocated r) pool = []" by (simp add: filter_empty_conv)
  then show "select_next_free pool = None" by (simp add: select_next_free_def)
qed

lemma update_claim_base: "map base (update_claim b t now pool) = map base pool"
  by (simp add: update_claim_def claim_row_def comp_def if_distrib cong: if_cong)

lemma update_claim_row:
  "x \<in> set (update_claim b t now pool) \<Longrightarrow> base x = b \<Longrightarrow>
     \<exists>r\<in>set pool. base r = b \<and> x = claim_row t now r"
  by (auto simp: update_claim_def claim_row_def split: if_splits)

lemma update_claim_other:
  "x \<in> set (update_claim b t now pool) \<Longrightarrow> base x \<noteq> b \<Longrightarrow> x \<in> set pool"
  by (auto simp: update_claim_def claim_row_def split: if_splits)

lemma upper_matatu: "toUpperCase ''matatu'' = ''MATATU''"
  by (simp add: toUpperCase_def upper_char_def)

lemma resolveTarget_req_matatu_M1:
  "resolveTarget (req_level req_matatu_M1) req_matatu_M1 = Inr target_M1"
  by (simp add: resolveTarget_def req_matatu_M1_def or_str_def truthy_def upper_matatu target_M1_def)




lemma prefix_of_default: "req_prefix req = None \<Longrightarrow> fullCode (prefix_of req) b c = ''*001*'' @ b @ c @ ''#''"
  by (simp add: prefix_of_def fullCode_def or_str_def)

lemma assign_next_select_valid:
  assumes "resolveTarget (req_level req) req = Inr t"
  shows "assign_next_select req pool =
     (case select_next_free pool of
        None \<Rightarrow> Inl (Response 400 (Failure ''no free codes in pool''))
      | Some (b, chk) \<Rightarrow> Inr (t, b, chk))"
  using assms resolveTarget_not_CASHIER [OF assms]
  by (simp add: assign_next_select_def Let_def split: option.split prod.split)

lemma resolveTarget_req_bind_A1:
  "resolveTarget (req_level (req_bind_A1 code)) (req_bind_A1 code) = Inr target_A1"
  by (simp add: resolveTarget_def req_bind_A1_def or_str_def truthy_def upper_SACCO_id target_A1_def)

lemma step_await:
  "step now (Awaiting k req (t, b, chk)) pool
     = (Finished (Response 200 (Success (fullCode (prefix_of req) b chk))), update_claim b t now pool)"
  by (cases k) (simp_all add: assign_next_update_def bind_from_pool_update_def)

lemma select_next_free_pool_2: "select_next_free pool_2 = Some (''110'', ''2'')"
  by (simp add: select_next_free_def pool_2_def free_row_def)

lemma step_select_sacco_pool_2:
  "step now (Ready Assign_next req_sacco_A1) pool_2
     = (Awaiting Assign_next req_sacco_A1 (target_A1, ''110'', ''2''), pool_2)"
  by (simp add: assign_next_select_valid [OF resolveTarget_req_sacco_A1] select_next_free_pool_2)

lemma step_select_matatu_pool_2:
  "step now (Ready Assign_next req_matatu_M1) pool_2
     = (Awaiting Assign_next req_matatu_M1 (target_M1, ''110'', ''2''), pool_2)"
  by (simp add: assign_next_select_valid [OF resolveTarget_req_matatu_M1] select_next_free_pool_2)

lemma update_claim_pool_2:
  "update_claim ''110'' t now pool_2 = [claimed_row ''110'' ''2'' t now, free_row ''115'' ''7'']"
  by (simp add: update_claim_def pool_2_def claimed_row_def free_row_def)

lemma update_claim_again:
  "update_claim ''110'' t now [claimed_row ''110'' ''2'' t' now', free_row ''115'' ''7'']
     = [claimed_row ''110'' ''2'' t now, free_row ''115'' ''7'']"
  by (simp add: update_claim_def claimed_row_def free_row_def claim_row_def)

lemma fullCode_110: "req_prefix req = None \<Longrightarrow> fullCode (prefix_of req) ''110'' ''2'' = ''*001*1102#''"
  by (simp add: prefix_of_default)

lemma step_ready:
  "step now (Ready k req) pool =
     (case selects k req pool of
        Inl resp \<Rightarrow> (Finished resp, pool)
      | Inr sel \<Rightarrow> (Awaiting k req sel, pool))"
  by (cases k) (auto simp: selects_def split: sum.split)

lemma handle_selects:
  "handle k req now pool =
     (case selects k req pool of
        Inl resp \<Rightarrow> (resp, pool)
      | Inr (t, b, chk) \<Rightarrow>
          (Response 200 (Success (fullCode (prefix_of req) b chk)), update_claim b t now pool))"
  by (cases k)
    (auto simp: handle_def selects_def assign_next_def bind_from_pool_def
      assign_next_update_def bind_from_pool_update_def split: sum.split)

lemma step_finished: "step now (Finished resp) pool = (Finished resp, pool)"
  by simp

lemma step_step:
  "step now' (fst (step now (Ready k req) pool)) (snd (step now (Ready k req) pool))
     = (Finished (fst (handle k req now' pool)), snd (handle k req now' pool))"
proof (cases "selects k req pool")
  case (Inl resp)
  then show ?thesis by (simp add: step_ready handle_selects)
next
  case (Inr sel)
  obtain t b chk where "sel = (t, b, chk)" by (cases sel) auto
  with Inr show ?thesis by (simp add: step_ready handle_selects step_await)
qed

lemma run_first_twice:
  "run (0 # 0 # sched) (Ready k req # ts, pool, clock)
     = run sched (Finished (fst (handle k req (Suc clock) pool)) # ts,
                  snd (handle k req (Suc clock) pool), Suc (Suc clock))"
proof -
  obtain t' pool' where s: "step clock (Ready k req) pool = (t', pool')"
    by (cases "step clock (Ready k req) pool") auto
  have "step (Suc clock) t' pool'
      = (Finished (fst (handle k req (Suc clock) pool)), snd (handle k req (Suc clock) pool))"
    using step_step [of "Suc clock" clock k req pool] by (simp add: s)
  then show ?thesis by (simp add: s del: step.simps)
qed

lemma run_second_twice:
  "run (1 # 1 # sched) (t0 # Ready k req # ts, pool, clock)
     = run sched (t0 # Finished (fst (handle k req (Suc clock) pool)) # ts,
                  snd (handle k req (Suc clock) pool), Suc (Suc clock))"
proof -
  obtain t' pool' where s: "step clock (Ready k req) pool = (t', pool')"
    by (cases "step clock (Ready k req) pool") auto
  have "step (Suc clock) t' pool'
      = (Finished (fst (handle k req (Suc clock) pool)), snd (handle k req (Suc clock) pool))"
    using step_step [of "Suc clock" clock k req pool] by (simp add: s)
  then show ?thesis by (simp add: s del: step.simps)
qed

lemma run_sequential:
  "run [0, 0, 1, 1] ([Ready k1 req1, Ready k2 req2], pool, clock) =
     ([Finished (fst (handle k1 req1 (Suc clock) pool)),
       Finished (fst (handle k2 req2 (clock + 3) (snd (handle k1 req1 (Suc clock) pool))))],
      snd (handle k2 req2 (clock + 3) (snd (handle k1 req1 (Suc clock) pool))),
      clock + 4)"
  by (simp only: run_first_twice run_second_twice run.simps(1)) (simp add: numeral_3_eq_3)

lemma select_next_free_row:
  assumes "select_next_free pool = Some (b, chk)"
  shows "\<exists>r\<in>set pool. base r = b \<and> \<not> allocated r"
proof -
  from assms have "\<not> (\<forall>r\<in>set pool. allocated r)"
    using select_next_free_None [of pool] by simp
  then have "\<exists>r\<in>set pool. \<not> allocated r" by simp
  then obtain r where "r \<in> set pool" "\<not> allocated r"
    "\<forall>r'\<in>set pool. \<not> allocated r' \<longrightarrow> base r \<le> base r'"
    "select_next_free pool = Some (base r, checksum r)"
    by (rule select_next_free_Some)
  with assms show ?thesis by auto
qed

lemma select_by_base_row:
  assumes "select_by_base b pool = Data (Some (alloc, chk))"
  shows "\<exists>r\<in>set pool. base r = b \<and> allocated r = alloc"
proof -
  from assms obtain r where f: "filter (\<lambda>r. base r = b) pool = [r]" and a: "allocated r = alloc"
    by (auto simp: select_by_base_def split: list.splits)
  have "r \<in> set (filter (\<lambda>r. base r = b) pool)" by (simp add: f)
  then show ?thesis using a by auto
qed

lemma assign_next_select_Inr:
  assumes "assign_next_select req pool = Inr (t, b, chk)"
  shows "resolveTarget (req_level req) req = Inr t \<and> select_next_free pool = Some (b, chk)"
proof (cases "resolveTarget (req_level req) req")
  case (Inl message)
  then show ?thesis using assms by (simp add: assign_next_select_def Let_def split: if_splits)
next
  case (Inr t')
  show ?thesis
  proof (cases "select_next_free pool")
    case None
    then show ?thesis using assms by (simp add: assign_next_select_valid [OF Inr])
  next
    case (Some p)
    obtain b' chk' where "p = (b', chk')" by (cases p) auto
    with Some assms Inr show ?thesis by (simp add: assign_next_select_valid [OF Inr])
  qed
qed

lemma bind_from_pool_select_Inr:
  assumes "bind_from_pool_select req pool = Inr (t, b, chk)"
  shows "resolveTarget (req_level req) req = Inr t
       \<and> parseUssdDigits (String_opt (req_ussd_code req)) = Some (b, chk)
       \<and> String_nat (digitalRoot b) = chk
       \<and> (\<exists>c. select_by_base b pool = Data (Some (False, c)))"
proof (cases "resolveTarget (req_level req) req")
  case (Inl message)
  then show ?thesis using assms by (simp add: bind_from_pool_select_def Let_def split: if_splits)
next
  case (Inr t')
  note v = bind_from_pool_select_valid [OF Inr, of pool]
  show ?thesis
  proof (cases "parseUssdDigits (String_opt (req_ussd_code req))")
    case None
    then show ?thesis using assms by (simp add: v)
  next
    case (Some p)
    obtain b' chk' where p: "p = (b', chk')" by (cases p) auto
    show ?thesis
    proof (cases "String_nat (digitalRoot b') = chk'")
      case False
      then show ?thesis using assms Some p by (simp add: v)
    next
      case True
      show ?thesis
      proof (cases "select_by_base b' pool")
        case Db_error
        then show ?thesis using assms Some p True by (simp add: v)
      next
        case (Data row)
        show ?thesis
        proof (cases row)
          case None
          then show ?thesis using assms Some p True Data by (simp add: v)
        next
          case (Some ac)
          obtain alloc c where ac: "ac = (alloc, c)" by (cases ac) auto
          show ?thesis
            using assms \<open>parseUssdDigits (String_opt (req_ussd_code req)) = Some p\<close> p True Data
              Some ac Inr
            by (cases alloc) (simp_all add: v)
        qed
      qed
    qed
  qed
qed

lemma selects_row:
  assumes "selects k req pool = Inr (t, b, chk)"
  shows "\<exists>r\<in>set pool. base r = b \<and> \<not> allocated r"
proof (cases k)
  case Assign_next
  with assms have "assign_next_select req pool = Inr (t, b, chk)" by (simp add: selects_def)
  then have "select_next_free pool = Some (b, chk)"
    by (rule assign_next_select_Inr [THEN conjunct2])
  then show ?thesis by (rule select_next_free_row)
next
  case Bind_from_pool
  with assms have "bind_from_pool_select req pool = Inr (t, b, chk)" by (simp add: selects_def)
  then have "\<exists>c. select_by_base b pool = Data (Some (False, c))"
    by (rule bind_from_pool_select_Inr [THEN conjunct2, THEN conjunct2, THEN conjunct2])
  then obtain c where "select_by_base b pool = Data (Some (False, c))" ..
  then have "\<exists>r\<in>set pool. base r = b \<and> allocated r = False" by (rule select_by_base_row)
  then show ?thesis by simp
qed

lemma update_claim_allocated:
  "x \<in> set (update_claim b t now pool) \<Longrightarrow> base x = b \<Longrightarrow>
     allocated x \<and> level x = Some (assigned_type t) \<and> allocated_at x = Some now"
proof -
  assume "x \<in> set (update_claim b t now pool)" "base x = b"
  then obtain r where "x = claim_row t now r" using update_claim_row by blast
  then show ?thesis by (simp add: claim_row_def)
qed

lemma update_claim_has_row:
  assumes "r \<in> set pool" "base r = b"
  shows "\<exists>x\<in>set (update_claim b t now pool). base x = b"
proof -
  have "(\<lambda>r. if base r = b then claim_row t now r else r) r \<in> set (update_claim b t now pool)"
    unfolding update_claim_def set_map using assms(1) by (rule imageI)
  then have "claim_row t now r \<in> set (update_claim b t now pool)"
    using assms(2) by simp
  moreover have "base (claim_row t now r) = b" using assms(2) by (simp add: claim_row_def)
  ultimately show ?thesis by blast
qed

lemma primary_key_update_claim:
  "primary_key (update_claim b t now pool) = primary_key pool"
  by (simp add: primary_key_def update_claim_base)

lemma holds_target_claim_row: "holds_target t (claim_row t now r)"
  by (simp add: holds_target_def claim_row_def)

lemma update_claim_holds:
  assumes "x \<in> set (update_claim b t now pool)" "base x = b"
  shows "holds_target t x \<and> allocated_at x = Some now"
proof -
  from assms obtain r where "x = claim_row t now r" using update_claim_row by blast
  then show ?thesis by (simp add: holds_target_claim_row) (simp add: claim_row_def)
qed

lemma update_claim_keeps:
  assumes "x \<in> set pool" "base x \<noteq> b"
  shows "x \<in> set (update_claim b t now pool)"
proof -
  have "(\<lambda>r. if base r = b then claim_row t now r else r) x \<in> set (update_claim b t now pool)"
    unfolding update_claim_def set_map using assms(1) by (rule imageI)
  then show ?thesis using assms(2) by simp
qed

lemma selects_not_allocated_base:
  assumes "\<forall>x\<in>set pool. base x = b \<longrightarrow> allocated x"
  shows "selects k req pool \<noteq> Inr (t, b, chk)"
proof
  assume "selects k req pool = Inr (t, b, chk)"
  then have "\<exists>r\<in>set pool. base r = b \<and> \<not> allocated r" by (rule selects_row)
  with assms show False by blast
qed

lemma handle_pool_cases:
  obtains "snd (handle k req now pool) = pool"
  | t b chk where "selects k req pool = Inr (t, b, chk)"
      "snd (handle k req now pool) = update_claim b t now pool"
proof (cases "selects k req pool")
  case (Inl resp)
  then have "snd (handle k req now pool) = pool" by (simp add: handle_selects)
  then show ?thesis by (rule that(1))
next
  case (Inr sel)
  obtain t b chk where s: "sel = (t, b, chk)" by (cases sel) auto
  with Inr have "selects k req pool = Inr (t, b, chk)"
    "snd (handle k req now pool) = update_claim b t now pool"
    by (simp_all add: handle_selects)
  then show ?thesis by (rule that(2))
qed

lemma bind_allocated_row:
  assumes "primary_key pool" "x \<in> set pool" "allocated x"
    and "resolveTarget (req_level req) req = Inr t"
    and "parseUssdDigits (String_opt (req_ussd_code req)) = Some (base x, chk)"
    and "String_nat (digitalRoot (base x)) = chk"
  shows "bind_from_pool req now pool = (Response 400 (Failure ''already allocated''), pool)"
proof -
  have sel: "select_by_base (base x) pool = Data (Some (allocated x, checksum x))"
    using assms(1,2) by (rule select_by_base_found)
  have "bind_from_pool_select req pool = Inl (Response 400 (Failure ''already allocated''))"
    by (simp add: bind_from_pool_select_valid [OF assms(4)] assms(5,6,3) sel)
  then show ?thesis by (simp add: bind_from_pool_def)
qed

lemma sequential_first:
  assumes "selects k1 req1 pool = Inr (t1, b, c1)"
  shows "handle k1 req1 now pool
      = (Response 200 (Success (fullCode (prefix_of req1) b c1)), update_claim b t1 now pool)"
  by (simp add: handle_selects assms)

lemma sequential_second_pool:
  assumes "selects k1 req1 pool = Inr (t1, b, c1)"
  shows "(\<exists>x\<in>set (snd (handle k2 req2 now2 (update_claim b t1 now1 pool))). base x = b)
       \<and> (\<forall>x\<in>set (snd (handle k2 req2 now2 (update_claim b t1 now1 pool))). base x = b \<longrightarrow>
            holds_target t1 x \<and> allocated_at x = Some now1)"
proof -
  let ?pool1 = "update_claim b t1 now1 pool"
  from assms obtain r where r: "r \<in> set pool" "base r = b" using selects_row by blast
  then obtain y where y: "y \<in> set ?pool1" "base y = b" using update_claim_has_row by blast
  have all1: "\<forall>x\<in>set ?pool1. base x = b \<longrightarrow> allocated x"
    using update_claim_allocated by blast
  show ?thesis
  proof (cases rule: handle_pool_cases [of k2 req2 now2 ?pool1])
    case 1
    then show ?thesis using y update_claim_holds [of _ b t1 now1 pool] by auto
  next
    case (2 t2 b2 c2)
    have ne: "b2 \<noteq> b" using selects_not_allocated_base [OF all1] 2(1) by blast
    have "y \<in> set (update_claim b2 t2 now2 ?pool1)"
      using y(1) by (rule update_claim_keeps) (simp add: y(2) ne [symmetric])
    moreover have "holds_target t1 x \<and> allocated_at x = Some now1"
      if "x \<in> set (update_claim b2 t2 now2 ?pool1)" "base x = b" for x
    proof -
      from that(1) have "x \<in> set ?pool1"
        by (rule update_claim_other) (simp add: that(2) ne [symmetric])
      then show ?thesis using that(2) by (rule update_claim_holds)
    qed
    ultimately show ?thesis using y(2) 2(2) by auto
  qed
qed

lemma select_by_base_pool_110: "select_by_base ''110'' pool_110 = Data (Some (False, ''2''))"
  by (simp add: select_by_base_def pool_110_def)

lemma parse_1102: "parseUssdDigits ''*001*1102#'' = Some (''110'', ''2'')"
  by (simp add: isDigit_simps)

lemma bind_select_pool_110:
  assumes "resolveTarget (req_level req) req = Inr t" "req_ussd_code req = Some ''*001*1102#''"
  shows "bind_from_pool_select req pool_110 = Inr (t, ''110'', ''2'')"
  by (simp add: bind_from_pool_select_valid [OF assms(1)] assms(2) String_opt_def isDigit_simps
      digitalRoot_110 String_nat_2 select_by_base_pool_110)

lemma step_bind_A1_pool_110:
  "step now (Ready Bind_from_pool (req_bind_A1 ''*001*1102#'')) pool_110
     = (Awaiting Bind_from_pool (req_bind_A1 ''*001*1102#'') (target_A1, ''110'', ''2''), pool_110)"
proof -
  have "req_ussd_code (req_bind_A1 ''*001*1102#'') = Some ''*001*1102#''"
    by (simp add: req_bind_A1_def)
  then show ?thesis by (simp add: bind_select_pool_110 [OF resolveTarget_req_bind_A1])
qed

lemma step_bind_M1_pool_110:
  "step now (Ready Bind_from_pool (req_bind_M1 ''*001*1102#'')) pool_110
     = (Awaiting Bind_from_pool (req_bind_M1 ''*001*1102#'') (target_M1, ''110'', ''2''), pool_110)"
proof -
  have "req_ussd_code (req_bind_M1 ''*001*1102#'') = Some ''*001*1102#''"
    by (simp add: req_bind_M1_def)
  then show ?thesis by (simp add: bind_select_pool_110 [OF resolveTarget_req_bind_M1])
qed

lemma update_claim_pool_110:
  "update_claim ''110'' t now pool_110 = [claimed_row ''110'' ''2'' t now]"
  by (simp add: update_claim_def pool_110_def claimed_row_def free_row_def)

lemma update_claim_110_again:
  "update_claim ''110'' t now [claimed_row ''110'' ''2'' t' now'] = [claimed_row ''110'' ''2'' t now]"
  by (simp add: update_claim_def claimed_row_def free_row_def claim_row_def)

lemma run_concurrent_bind:
  "run [0, 1, 0, 1]
       ([Ready Bind_from_pool (req_bind_A1 ''*001*1102#''),
         Ready Bind_from_pool (req_bind_M1 ''*001*1102#'')], pool_110, 0)
     = ([Finished (Response 200 (Success ''*001*1102#'')),
         Finished (Response 200 (Success ''*001*1102#''))],
        [claimed_row ''110'' ''2'' target_M1 3], 4)"
proof -
  have p: "req_prefix (req_bind_A1 ''*001*1102#'') = None"
    "req_prefix (req_bind_M1 ''*001*1102#'') = None"
    by (simp_all add: req_bind_A1_def req_bind_M1_def)
  show ?thesis
    by (simp add: step_bind_A1_pool_110 step_bind_M1_pool_110 step_await update_claim_pool_110
        update_claim_110_again fullCode_110 [OF p(1)] fullCode_110 [OF p(2)] numeral_3_eq_3
        del: step.simps)
qed

lemma truthy_or_str: "truthy v \<Longrightarrow> or_str v [] \<noteq> []"
  by (auto simp: truthy_def or_str_def split: option.splits)

lemma resolveTarget_valid: "resolveTarget lvl ids = Inr t \<Longrightarrow> valid_target t"
  by (auto dest!: resolveTarget_Inr simp: valid_target_def truthy_or_str)

lemma selects_valid:
  assumes "selects k req pool = Inr (t, b, chk)"
  shows "valid_target t"
proof (cases k)
  case Assign_next
  with assms have "assign_next_select req pool = Inr (t, b, chk)" by (simp add: selects_def)
  then have "resolveTarget (req_level req) req = Inr t"
    by (rule assign_next_select_Inr [THEN conjunct1])
  then show ?thesis by (rule resolveTarget_valid)
next
  case Bind_from_pool
  with assms have "bind_from_pool_select req pool = Inr (t, b, chk)" by (simp add: selects_def)
  then have "resolveTarget (req_level req) req = Inr t"
    by (rule bind_from_pool_select_Inr [THEN conjunct1])
  then show ?thesis by (rule resolveTarget_valid)
qed

lemma claim_row_ok: "valid_target t \<Longrightarrow> row_ok (claim_row t now r)"
  by (auto simp: valid_target_def row_ok_def slot_invariant_def ussd_allocated_fields_def
      claim_row_def)

lemma update_claim_ok:
  assumes "valid_target t" "\<forall>r\<in>set pool. row_ok r"
  shows "\<forall>r\<in>set (update_claim b t now pool). row_ok r"
  using assms by (auto simp: update_claim_def claim_row_ok)

lemma seed_row_ok: "row_ok (seed_row i)"
  by (simp add: seed_row_def Let_def row_ok_def slot_invariant_def ussd_allocated_fields_def)

lemma step_ok:
  assumes "task_ok tk" "\<forall>r\<in>set pool. row_ok r"
  shows "task_ok (fst (step now tk pool)) \<and> (\<forall>r\<in>set (snd (step now tk pool)). row_ok r)"
proof (cases tk)
  case (Ready k req)
  show ?thesis
  proof (cases "selects k req pool")
    case (Inl resp)
    then show ?thesis using assms(2) Ready by (simp add: step_ready)
  next
    case (Inr sel)
    obtain t b chk where s: "sel = (t, b, chk)" by (cases sel) auto
    have "valid_target t" using Inr s selects_valid by blast
    then show ?thesis using assms(2) Ready Inr s by (simp add: step_ready)
  qed
next
  case (Awaiting k req sel)
  obtain t b chk where s: "sel = (t, b, chk)" by (cases sel) auto
  have v: "valid_target t" using assms(1) Awaiting s by simp
  have "\<forall>r\<in>set (update_claim b t now pool). row_ok r"
    using v assms(2) by (rule update_claim_ok)
  then show ?thesis using Awaiting s by (simp add: step_await)
next
  case (Finished resp)
  then show ?thesis using assms(2) by simp
qed

lemma run_ok:
  assumes "list_all task_ok ts" "\<forall>r\<in>set pool. row_ok r"
  shows "list_all task_ok (fst (run sched (ts, pool, clock)))
       \<and> (\<forall>r\<in>set (fst (snd (run sched (ts, pool, clock)))). row_ok r)"
  using assms
proof (induction sched arbitrary: ts pool clock)
  case Nil
  then show ?case by simp
next
  case (Cons i sched)
  show ?case
  proof (cases "i < length ts")
    case False
    then show ?thesis using Cons.IH [OF Cons.prems] by simp
  next
    case True
    obtain t' pool' where s: "step clock (ts ! i) pool = (t', pool')"
      by (cases "step clock (ts ! i) pool") auto
    have "task_ok (ts ! i)" using Cons.prems(1) True by (simp add: list_all_length)
    then have ok: "task_ok t'" "\<forall>r\<in>set pool'. row_ok r"
      using step_ok [OF _ Cons.prems(2), of "ts ! i" clock] s by simp_all
    have "list_all task_ok (ts[i := t'])"
      using Cons.prems(1) ok(1) set_update_subset_insert [of ts i t']
      by (auto simp: list_all_iff)
    then have "list_all task_ok (fst (run sched (ts[i := t'], pool', Suc clock)))
       \<and> (\<forall>r\<in>set (fst (snd (run sched (ts[i := t'], pool', Suc clock)))). row_ok r)"
      using ok(2) by (rule Cons.IH)
    then show ?thesis using True s by (simp del: step.simps)
  qed
qed

lemma is_Ready_task_ok: "is_Ready tk \<Longrightarrow> task_ok tk"
  by (cases tk) simp_all

lemma handle_ok:
  assumes "\<forall>r\<in>set pool. row_ok r"
  shows "\<forall>r\<in>set (snd (handle k req now pool)). row_ok r"
proof (cases rule: handle_pool_cases [of k req now pool])
  case 1
  then show ?thesis using assms by simp
next
  case (2 t b chk)
  have "valid_target t" using 2(1) by (rule selects_valid)
  then show ?thesis using assms 2(2) by (simp add: update_claim_ok)
qed

lemma bind_invalid_format_iff:
  assumes "resolveTarget (req_level req) req = Inr t"
  shows "bind_from_pool_select req pool = Inl (Response 400 (Failure ''invalid code format''))
     \<longleftrightarrow> parseUssdDigits (String_opt (req_ussd_code req)) = None"
proof (cases "parseUssdDigits (String_opt (req_ussd_code req))")
  case None
  then show ?thesis by (simp add: bind_from_pool_select_valid [OF assms])
next
  case (Some p)
  obtain b chk where p: "p = (b, chk)" by (cases p) auto
  have "bind_from_pool_select req pool \<noteq> Inl (Response 400 (Failure ''invalid code format''))"
    using Some p
    by (simp add: bind_from_pool_select_valid [OF assms]
        split: db_result.split option.split prod.split)
  then show ?thesis using Some by simp
qed

subsection \<open>The handlers keep the invariant of a slot\<close>

text \<open>
  Every row the seeding script inserts into an empty table satisfies the invariant of a
  code slot and the check constraint \<open>ussd_allocated_fields\<close>, and the handlers keep
  both: if all rows of the pool satisfy them, they still do after assign-next, after
  bind-from-pool, and after any number of steps of any requests interleaved in any order.
\<close>

lemma handlers_preserve_slot_invariant:
  assumes "\<forall>r\<in>set pool. slot_invariant r \<and> ussd_allocated_fields r"
    and "list_all is_Ready ts"
  shows "(\<forall>r\<in>set (seed_rows safeStart safeCount). slot_invariant r \<and> ussd_allocated_fields r)
       \<and> (\<forall>r\<in>set (snd (assign_next req now pool)). slot_invariant r \<and> ussd_allocated_fields r)
       \<and> (\<forall>r\<in>set (snd (bind_from_pool req now pool)). slot_invariant r \<and> ussd_allocated_fields r)
       \<and> (\<forall>r\<in>set (fst (snd (run sched (ts, pool, clock)))).
             slot_invariant r \<and> ussd_allocated_fields r)"
proof -
  have inv: "\<forall>r\<in>set pool. row_ok r" using assms(1) by (simp add: row_ok_def)
  have tasks: "list_all task_ok ts"
    using assms(2) by (auto simp: list_all_iff is_Ready_task_ok)
  have seeds: "\<forall>r\<in>set (seed_rows safeStart safeCount). row_ok r"
    by (auto simp: seed_rows_def seed_row_ok)
  have a: "\<forall>r\<in>set (snd (assign_next req now pool)). row_ok r"
    using handle_ok [OF inv, of Assign_next req now] by (simp add: handle_def)
  have b: "\<forall>r\<in>set (snd (bind_from_pool req now pool)). row_ok r"
    using handle_ok [OF inv, of Bind_from_pool req now] by (simp add: handle_def)
  have r: "\<forall>r\<in>set (fst (snd (run sched (ts, pool, clock)))). row_ok r"
    using run_ok [OF tasks inv] by blast
  show ?thesis using seeds a b r unfolding row_ok_def by blast
qed

lemma handlers_preserve_slot_invariant_example:
  "list_all slot_invariant pool_110 \<and> list_all ussd_allocated_fields pool_110
   \<and> list_all is_Ready [Ready Bind_from_pool (req_bind_A1 ''*001*1102#''),
                        Ready Bind_from_pool (req_bind_M1 ''*001*1102#'')]
   \<and> fst (snd (run [0, 1, 0, 1]
        ([Ready Bind_from_pool (req_bind_A1 ''*001*1102#''),
          Ready Bind_from_pool (req_bind_M1 ''*001*1102#'')], pool_110, 0)))
       = [claimed_row ''110'' ''2'' target_M1 3]
   \<and> slot_invariant (claimed_row ''110'' ''2'' target_M1 3)
   \<and> ussd_allocated_fields (claimed_row ''110'' ''2'' target_M1 3)
   \<and> allocated (claimed_row ''110'' ''2'' target_M1 3)
   \<and> matatu_id (claimed_row ''110'' ''2'' target_M1 3) = Some ''M1''
   \<and> sacco_id (claimed_row ''110'' ''2'' target_M1 3) = None"
proof -
  have i: "list_all slot_invariant pool_110" "list_all ussd_allocated_fields pool_110"
    by (simp_all add: pool_110_def slot_invariant_def ussd_allocated_fields_def)
  then have inv: "\<forall>r\<in>set pool_110. slot_invariant r \<and> ussd_allocated_fields r"
    by (simp add: list_all_iff)
  have rd: "list_all is_Ready [Ready Bind_from_pool (req_bind_A1 ''*001*1102#''),
                        Ready Bind_from_pool (req_bind_M1 ''*001*1102#'')]" by simp
  have f: "allocated (claimed_row ''110'' ''2'' target_M1 3)"
    "matatu_id (claimed_row ''110'' ''2'' target_M1 3) = Some ''M1''"
    "sacco_id (claimed_row ''110'' ''2'' target_M1 3) = None"
    by (simp_all add: claimed_row_def claim_row_def target_M1_def)
  show ?thesis
    using handlers_preserve_slot_invariant [OF inv rd, of 110 30 req_sacco_A1 5 "[0, 1, 0, 1]" 0]
      i rd f
    by (simp only: run_concurrent_bind fst_conv snd_conv) simp
qed

subsection \<open>The seeding script on the example pools\<close>

lemma String_nat_110: "String_nat 110 = ''110''"
  by (simp add: String_nat.simps digit_char_def)

lemma seed_row_110: "seed_row 110 = free_row ''110'' ''2''"
  by (simp add: seed_row_def Let_def String_nat_110 padStart3_def seed_digitalRoot_def
      digitalRoot_110 [unfolded digitalRoot_def] String_nat_2 free_row_def)

lemma seed_rows_110: "seed_rows 110 1 = [free_row ''110'' ''2'']"
proof -
  have "[110 ..< 110 + 1] = [110::nat]" by (simp add: upt_rec)
  then show ?thesis by (simp add: seed_rows_def seed_row_110)
qed

lemma seed_empty_table: "seed 110 1 [] = seed_rows 110 1"
  by (simp only: seed_def seed_rows_110) (simp add: upsert_def)

lemma isAscii_CASHIER: "list_all isAscii ''CASHIER''"
  by (simp add: isAscii_def)

section \<open>The claims\<close>

text \<open>
  Claim C1, as the code has it. Each handler reads the slot with a select and commits with
  a separate update that is keyed by the base alone. When two requests run one after the
  other, the first one's select and update before the second one's, and the first claims
  base \<open>b\<close>, then it answers with success; the second does not select \<open>b\<close>, whatever its
  route, and a second bind of a code for \<open>b\<close> with a valid target and the right checksum
  is answered "already allocated"; and afterwards the slot of \<open>b\<close> holds the target of the
  first request, with the time of its update.
\<close>

theorem sequential_claims_exclusive:
  assumes "primary_key pool" and "selects k1 req1 pool = Inr (t1, b, c1)"
  shows "run [0, 0, 1, 1] ([Ready k1 req1, Ready k2 req2], pool, clock)
      = ([Finished (Response 200 (Success (fullCode (prefix_of req1) b c1))),
          Finished (fst (handle k2 req2 (clock + 3) (update_claim b t1 (Suc clock) pool)))],
         snd (handle k2 req2 (clock + 3) (update_claim b t1 (Suc clock) pool)), clock + 4)
    \<and> (\<forall>t2 c2. selects k2 req2 (update_claim b t1 (Suc clock) pool) \<noteq> Inr (t2, b, c2))
    \<and> (k2 = Bind_from_pool
         \<and> resolveTarget (req_level req2) req2 = Inr t2
         \<and> parseUssdDigits (String_opt (req_ussd_code req2)) = Some (b, c2)
         \<and> String_nat (digitalRoot b) = c2 \<longrightarrow>
           handle k2 req2 (clock + 3) (update_claim b t1 (Suc clock) pool)
             = (Response 400 (Failure ''already allocated''), update_claim b t1 (Suc clock) pool))
    \<and> (\<exists>x\<in>set (snd (handle k2 req2 (clock + 3) (update_claim b t1 (Suc clock) pool))).
           base x = b)
    \<and> (\<forall>x\<in>set (snd (handle k2 req2 (clock + 3) (update_claim b t1 (Suc clock) pool))).
           base x = b \<longrightarrow> holds_target t1 x \<and> allocated_at x = Some (Suc clock))"
proof -
  let ?pool1 = "update_claim b t1 (Suc clock) pool"
  have first: "handle k1 req1 (Suc clock) pool
      = (Response 200 (Success (fullCode (prefix_of req1) b c1)), ?pool1)"
    using assms(2) by (rule sequential_first)
  have run: "run [0, 0, 1, 1] ([Ready k1 req1, Ready k2 req2], pool, clock)
      = ([Finished (Response 200 (Success (fullCode (prefix_of req1) b c1))),
          Finished (fst (handle k2 req2 (clock + 3) ?pool1))],
         snd (handle k2 req2 (clock + 3) ?pool1), clock + 4)"
    by (simp only: run_sequential first fst_conv snd_conv)
  have all1: "\<forall>x\<in>set ?pool1. base x = b \<longrightarrow> allocated x"
    using update_claim_allocated by blast
  have excl: "\<forall>t2 c2. selects k2 req2 ?pool1 \<noteq> Inr (t2, b, c2)"
    using selects_not_allocated_base [OF all1] by blast
  have bind: "handle k2 req2 (clock + 3) ?pool1
      = (Response 400 (Failure ''already allocated''), ?pool1)"
    if h: "k2 = Bind_from_pool" "resolveTarget (req_level req2) req2 = Inr t2"
      "parseUssdDigits (String_opt (req_ussd_code req2)) = Some (b, c2)"
      "String_nat (digitalRoot b) = c2"
  proof -
    from assms(2) obtain r where "r \<in> set pool" "base r = b" using selects_row by blast
    then obtain x where x: "x \<in> set ?pool1" "base x = b" using update_claim_has_row by blast
    then have al: "allocated x" using all1 by blast
    have pk: "primary_key ?pool1" using assms(1) by (simp only: primary_key_update_claim)
    have "bind_from_pool req2 (clock + 3) ?pool1
        = (Response 400 (Failure ''already allocated''), ?pool1)"
      using pk x(1) al h(2) by (rule bind_allocated_row) (simp_all add: x(2) h(3,4))
    then show ?thesis by (simp add: handle_def h(1))
  qed
  note rows = sequential_second_pool [OF assms(2), of k2 req2 "clock + 3" "Suc clock"]
  show ?thesis using run excl bind rows by blast
qed

theorem sequential_claims_exclusive_witness:
  "primary_key pool_110
   \<and> selects Bind_from_pool (req_bind_A1 ''*001*1102#'') pool_110 = Inr (target_A1, ''110'', ''2'')
   \<and> run [0, 0, 1, 1]
        ([Ready Bind_from_pool (req_bind_A1 ''*001*1102#''),
          Ready Bind_from_pool (req_bind_M1 ''*001*1102#'')], pool_110, 0)
      = ([Finished (Response 200 (Success ''*001*1102#'')),
          Finished (Response 400 (Failure ''already allocated''))],
         [claimed_row ''110'' ''2'' target_A1 1], 4)
   \<and> holds_target target_A1 (claimed_row ''110'' ''2'' target_A1 1)"
proof -
  have pk: "primary_key pool_110" by (simp add: primary_key_def pool_110_def)
  have code: "req_ussd_code (req_bind_A1 ''*001*1102#'') = Some ''*001*1102#''"
    by (simp add: req_bind_A1_def)
  have sel: "selects Bind_from_pool (req_bind_A1 ''*001*1102#'') pool_110
      = Inr (target_A1, ''110'', ''2'')"
    by (simp add: selects_def bind_select_pool_110 [OF resolveTarget_req_bind_A1 code])
  have p2: "parseUssdDigits (String_opt (req_ussd_code (req_bind_M1 ''*001*1102#'')))
      = Some (''110'', ''2'')"
    by (simp add: req_bind_M1_def String_opt_def isDigit_simps)
  have c2: "String_nat (digitalRoot ''110'') = ''2''" by (simp add: digitalRoot_110 String_nat_2)
  have pf: "req_prefix (req_bind_A1 ''*001*1102#'') = None" by (simp add: req_bind_A1_def)
  have h: "holds_target target_A1 (claimed_row ''110'' ''2'' target_A1 1)"
    by (simp add: claimed_row_def holds_target_claim_row)
  show ?thesis
    using sequential_claims_exclusive [OF pk sel, of Bind_from_pool "req_bind_M1 ''*001*1102#''" 0
        target_M1 "''2''"]
      pk sel p2 c2 h resolveTarget_req_bind_M1 [of "''*001*1102#''"]
    by (simp add: update_claim_pool_110 fullCode_110 [OF pf])
qed

text \<open>
  Claim C1 as stated fails. Two requests bind the same code for two targets; each runs
  its select while the slot is still free, then each runs its update. Both are answered
  with success for base 110, neither sees "already allocated", and the slot ends with the
  target of the request whose update came last, though the other was told it succeeded:
  the commit is a select followed by an unconditional update, not a compare-and-set.
\<close>

theorem concurrent_bind_counterexample:
  "run [0, 1, 0, 1]
       ([Ready Bind_from_pool (req_bind_A1 ''*001*1102#''),
         Ready Bind_from_pool (req_bind_M1 ''*001*1102#'')], pool_110, 0)
     = ([Finished (Response 200 (Success ''*001*1102#'')),
         Finished (Response 200 (Success ''*001*1102#''))],
        [claimed_row ''110'' ''2'' target_M1 3], 4)
   \<and> holds_target target_M1 (claimed_row ''110'' ''2'' target_M1 3)
   \<and> \<not> holds_target target_A1 (claimed_row ''110'' ''2'' target_M1 3)"
proof -
  have h: "holds_target target_M1 (claimed_row ''110'' ''2'' target_M1 3)"
    by (simp add: claimed_row_def holds_target_claim_row)
  have n: "\<not> holds_target target_A1 (claimed_row ''110'' ''2'' target_M1 3)"
    by (simp add: claimed_row_def holds_target_def claim_row_def target_A1_def target_M1_def)
  from run_concurrent_bind h n show ?thesis by simp
qed

text \<open>
  Claim C2 fails on the seeding script. The handlers keep the invariant of a slot, in
  every interleaving (\<open>handlers_preserve_slot_invariant\<close>), and so does the script on an
  empty table. But the script writes with an upsert on the base, and on a base that is
  already in the table it overwrites \<open>checksum\<close> and \<open>allocated\<close> and keeps the other
  columns. Run with its default start 110 against a table in which base 110 is allocated
  to SACCO A1, it leaves that row with \<open>allocated = false\<close> and with its level and its
  \<open>sacco_id\<close> still set: the row satisfied the invariant and the check constraint
  \<open>ussd_allocated_fields\<close> before, and satisfies neither after.
\<close>

theorem reseed_breaks_slot_invariant:
  "slot_invariant row_110_A1 \<and> ussd_allocated_fields row_110_A1
   \<and> seed 110 1 [row_110_A1] = [row_110_A1\<lparr>allocated := False\<rparr>]
   \<and> allocated (row_110_A1\<lparr>allocated := False\<rparr>) = False
   \<and> level (row_110_A1\<lparr>allocated := False\<rparr>) = Some ''SACCO''
   \<and> sacco_id (row_110_A1\<lparr>allocated := False\<rparr>) = Some ''A1''
   \<and> \<not> slot_invariant (row_110_A1\<lparr>allocated := False\<rparr>)
   \<and> \<not> ussd_allocated_fields (row_110_A1\<lparr>allocated := False\<rparr>)"
proof -
  have s: "seed 110 1 [row_110_A1] = [row_110_A1\<lparr>allocated := False\<rparr>]"
    by (simp only: seed_def seed_rows_110) (simp add: upsert_def free_row_def row_110_A1_def)
  have r: "slot_invariant row_110_A1" "ussd_allocated_fields row_110_A1"
    "\<not> slot_invariant (row_110_A1\<lparr>allocated := False\<rparr>)"
    "\<not> ussd_allocated_fields (row_110_A1\<lparr>allocated := False\<rparr>)"
    by (simp_all add: slot_invariant_def ussd_allocated_fields_def row_110_A1_def)
  show ?thesis using s r by (simp add: row_110_A1_def)
qed

text \<open>
  Claim C3. For a base of three decimal digits with digit sum \<open>s\<close>, \<open>digitalRoot\<close> (the
  checksum computed at bind time) is \<open>0\<close> when \<open>s = 0\<close> and \<open>1 + ((s - 1) mod 9)\<close>
  otherwise; the seeding script and the seeding SQL compute the same digit, as text; and
  for every base other than \<open>000\<close> the result is a digit from 1 to 9.
\<close>

theorem computeChecksum_digital_root:
  assumes "isDigit c1" "isDigit c2" "isDigit c3"
  shows "let base = [c1, c2, c3]; s = digit_val c1 + digit_val c2 + digit_val c3 in
           digitalRoot base = (if s = 0 then 0 else 1 + (s - 1) mod 9)
         \<and> seed_digitalRoot base = String_nat (digitalRoot base)
         \<and> sql_digital_root base = String_nat (digitalRoot base)
         \<and> (base \<noteq> ''000'' \<longrightarrow> 1 \<le> digitalRoot base \<and> digitalRoot base \<le> 9)"
proof -
  let ?base = "[c1, c2, c3]"
  let ?s = "digit_val c1 + digit_val c2 + digit_val c3"
  have sum: "sumDigits ?base = ?s" by (simp add: sumDigits_sum_list)
  have root: "digitalRoot ?base = (if ?s = 0 then 0 else 1 + (?s - 1) mod 9)"
    unfolding digitalRoot_def sum by (rule digitalRoot_loop_closed)
  have seed: "seed_digitalRoot ?base = String_nat (digitalRoot ?base)"
    by (simp add: seed_digitalRoot_def digitalRoot_def)
  have sql: "sql_digital_root ?base = String_nat (digitalRoot ?base)"
  proof (cases "?s = 0")
    case True
    then have "sql_int ?base = 0" by (simp only: sql_int3_zero)
    moreover have "String_nat 0 = ''0''"
      by (subst String_nat.simps) (simp add: digit_char_def)
    ultimately show ?thesis using True assms root by (simp add: sql_digital_root_def)
  next
    case False
    then have nz: "sql_int ?base \<noteq> 0" by (simp only: sql_int3_zero) simp
    have eq: "(sql_int ?base - 1) mod 9 = (?s - 1) mod 9"
      using nz False by (intro mod9_pred_cong sql_int3_mod9) simp_all
    have r: "digitalRoot ?base = 1 + (?s - 1) mod 9"
      using root by (simp only: False if_False)
    have "sql_digital_root ?base = String_nat (1 + (sql_int ?base - 1) mod 9)"
      using nz assms by (simp add: sql_digital_root_def)
    then show ?thesis by (simp only: eq r)
  qed
  have range: "?base \<noteq> ''000'' \<longrightarrow> 1 \<le> digitalRoot ?base \<and> digitalRoot ?base \<le> 9"
    using isDigit_000 [OF assms] digitalRoot_loop_le9 [of ?s] digitalRoot_loop_pos [of ?s]
    unfolding digitalRoot_def sum by simp
  show ?thesis unfolding Let_def using root seed sql range by blast
qed

theorem computeChecksum_digital_root_witness:
  "isDigit CHR ''1'' \<and> isDigit CHR ''0'' \<and> digitalRoot ''110'' = 2
   \<and> seed_digitalRoot ''110'' = ''2'' \<and> sql_digital_root ''110'' = ''2''"
proof -
  have d: "isDigit CHR ''1''" "isDigit CHR ''0''" by (simp_all add: isDigit_def digit_of_def)
  have v: "digit_val CHR ''1'' = 1" "digit_val CHR ''0'' = 0"
    by (simp_all add: digit_val_def digit_of_def)
  show ?thesis
    using computeChecksum_digital_root [OF d(1) d(1) d(2)] d
    by (simp add: Let_def v String_nat_digit digit_char_def)
qed

text \<open>
  Claim C4, as the code has it. Assign-next makes a single attempt. With a valid target
  and no unallocated row, it fails with "no free codes in pool" and the store is as it
  was. With an unallocated row, the select step picks the lowest one, and the update
  step that follows writes that base and reports success, whatever the store has become
  in between: nothing reports that the slot was taken, and nothing is tried again.
\<close>

theorem assign_next_single_attempt:
  assumes "resolveTarget (req_level req) req = Inr t"
  shows "(select_next_free pool = None \<longrightarrow>
            assign_next req now pool = (Response 400 (Failure ''no free codes in pool''), pool)
          \<and> step now (Ready Assign_next req) pool
              = (Finished (Response 400 (Failure ''no free codes in pool'')), pool))
       \<and> (\<forall>b chk. select_next_free pool = Some (b, chk) \<longrightarrow>
            step now (Ready Assign_next req) pool = (Awaiting Assign_next req (t, b, chk), pool)
          \<and> (\<forall>now' pool'. step now' (Awaiting Assign_next req (t, b, chk)) pool'
                = (Finished (Response 200 (Success (fullCode (prefix_of req) b chk))),
                   update_claim b t now' pool')))"
  using resolveTarget_not_CASHIER [OF assms]
  by (simp add: assign_next_valid [OF assms] assign_next_select_def assms assign_next_update_def)

theorem assign_next_single_attempt_witness:
  "resolveTarget (req_level req_matatu_M1) req_matatu_M1 = Inr target_M1
   \<and> select_next_free [row_110_A1] = None
   \<and> assign_next req_matatu_M1 7 [row_110_A1]
       = (Response 400 (Failure ''no free codes in pool''), [row_110_A1])
   \<and> select_next_free pool_2 = Some (''110'', ''2'')
   \<and> step 9 (Awaiting Assign_next req_matatu_M1 (target_M1, ''110'', ''2'')) [row_110_A1]
       = (Finished (Response 200 (Success ''*001*1102#'')),
          update_claim ''110'' target_M1 9 [row_110_A1])"
proof -
  have n: "select_next_free [row_110_A1] = None"
    by (simp add: select_next_free_def row_110_A1_def)
  have p: "req_prefix req_matatu_M1 = None" by (simp add: req_matatu_M1_def)
  show ?thesis
    using assign_next_single_attempt [OF resolveTarget_req_matatu_M1, of "[row_110_A1]" 7]
      assign_next_single_attempt [OF resolveTarget_req_matatu_M1, of pool_2 7]
      n resolveTarget_req_matatu_M1 select_next_free_pool_2 fullCode_110 [OF p]
    by simp
qed

text \<open>
  Claim C4 as stated fails. Two assign-next requests run against a pool with the free
  bases 110 and 115: the first selects 110, the second selects 110 and claims it, then
  the first sends its update. It is not told that the slot was taken and does not go on to
  115: its update writes 110 again and it answers with the code of 110, as the second
  request did, while 115 stays free.
\<close>

theorem assign_next_no_retry_counterexample:
  "run [0, 1, 1, 0]
       ([Ready Assign_next req_sacco_A1, Ready Assign_next req_matatu_M1], pool_2, 0)
     = ([Finished (Response 200 (Success ''*001*1102#'')),
         Finished (Response 200 (Success ''*001*1102#''))],
        [claimed_row ''110'' ''2'' target_A1 3, free_row ''115'' ''7''], 4)
   \<and> allocated (free_row ''115'' ''7'') = False"
proof -
  have p: "req_prefix req_sacco_A1 = None" "req_prefix req_matatu_M1 = None"
    by (simp_all add: req_sacco_A1_def req_matatu_M1_def)
  have "allocated (free_row ''115'' ''7'') = False" by (simp add: free_row_def)
  then show ?thesis
    by (simp add: step_select_sacco_pool_2 step_select_matatu_pool_2 step_await
        update_claim_pool_2 update_claim_again fullCode_110 [OF p(1)] fullCode_110 [OF p(2)]
        numeral_3_eq_3 del: step.simps)
qed



text \<open>
  Claim C6. Binding the full code of a slot that is already allocated, by a request that
  passes the validation of its target, fails with "already allocated" and leaves the whole
  store, and so the assignment of the slot, as it was. The full code is the one
  \<open>fullCode\<close> prints for the slot; its prefix is the default one or any other in which the
  parser finds no code of its own.
\<close>

theorem bind_rejects_allocated:
  assumes "primary_key pool" "r \<in> set pool" "allocated r"
    and "ussd_base_format r" "ussd_checksum_format r" "ussd_checksum_matches_base r"
    and "resolveTarget (req_level req) req = Inr t"
    and "parseUssdDigits (or_str p ''*001*'') = None"
    and "req_ussd_code req = Some (fullCode p (base r) (checksum r))"
  shows "bind_from_pool req now pool = (Response 400 (Failure ''already allocated''), pool)"
proof -
  from assms(4) obtain c1 c2 c3 where b: "base r = [c1, c2, c3]"
    and d: "isDigit c1" "isDigit c2" "isDigit c3"
    by (rule base_format_digits)
  from assms(5) obtain k where k: "checksum r = [k]" "isDigit k"
    by (auto simp: ussd_checksum_format_def split: list.splits)
  have "String_opt (req_ussd_code req) = or_str p ''*001*'' @ [c1, c2, c3, k, CHR ''#'']"
    by (simp add: assms(9) String_opt_def fullCode_def b k)
  then have parse: "parseUssdDigits (String_opt (req_ussd_code req)) = Some (base r, checksum r)"
    using parseUssdDigits_prefixed [OF assms(8) d k(2)] by (simp add: b k)
  have chk: "String_nat (digitalRoot (base r)) = checksum r"
    using constraints_checksum [OF assms(4,5,6)] by simp
  have sel: "select_by_base (base r) pool = Data (Some (allocated r, checksum r))"
    using assms(1,2) by (rule select_by_base_found)
  have "bind_from_pool_select req pool = Inl (Response 400 (Failure ''already allocated''))"
    by (simp add: bind_from_pool_select_valid [OF assms(7)] parse chk sel assms(3))
  then show ?thesis by (simp add: bind_from_pool_def)
qed

theorem bind_rejects_allocated_witness:
  "assign_next req_sacco_A1 5 pool_110 = (Response 200 (Success ''*001*1102#''), [row_110_A1])
   \<and> bind_from_pool (req_bind_M1 ''*001*1102#'') 6 [row_110_A1]
       = (Response 400 (Failure ''already allocated''), [row_110_A1])
   \<and> level row_110_A1 = Some ''SACCO'' \<and> sacco_id row_110_A1 = Some ''A1''"
proof -
  have pk: "primary_key [row_110_A1]" by (simp add: primary_key_def)
  have mem: "row_110_A1 \<in> set [row_110_A1]" by simp
  have al: "allocated row_110_A1" by (simp add: row_110_A1_def)
  have bf: "ussd_base_format row_110_A1"
    by (simp add: ussd_base_format_def row_110_A1_def isDigit_simps)
  have cf: "ussd_checksum_format row_110_A1"
    by (simp add: ussd_checksum_format_def row_110_A1_def isDigit_simps)
  have cm: "ussd_checksum_matches_base row_110_A1"
    by (simp add: ussd_checksum_matches_base_def row_110_A1_def substring_def sql_int_def
        digit_val_def digit_of_def pg_mod_def)
  have pf: "parseUssdDigits (or_str None ''*001*'') = None"
    by (simp add: or_str_def isDigit_simps)
  have code: "req_ussd_code (req_bind_M1 ''*001*1102#'')
      = Some (fullCode None (base row_110_A1) (checksum row_110_A1))"
    by (simp add: req_bind_M1_def fullCode_def or_str_def row_110_A1_def)
  show ?thesis
    using bind_rejects_allocated [OF pk mem al bf cf cm resolveTarget_req_bind_M1 pf code, of 6]
      assign_next_110
    by (simp add: row_110_A1_def)
qed




text \<open>
  Claim C8. A request whose level, a string of ASCII characters, is in upper case neither
  SACCO nor MATATU is rejected by assign-next and by bind-from-pool alike: CASHIER by the
  guard of the handler, any other level by the error of \<open>resolveTarget\<close>. The store is
  left as it was, and the request ends at its first step, before any statement is sent to
  the store.
\<close>

theorem unsupported_level_rejected:
  assumes "list_all isAscii (or_str (req_level req) [])"
    and "toUpperCase (or_str (req_level req) []) \<notin> {''SACCO'', ''MATATU''}"
  shows "assign_next req now pool = (unsupported_level (toUpperCase (or_str (req_level req) [])), pool)
       \<and> bind_from_pool req now pool = (unsupported_level (toUpperCase (or_str (req_level req) [])), pool)
       \<and> step now (Ready k req) pool
           = (Finished (unsupported_level (toUpperCase (or_str (req_level req) []))), pool)"
proof -
  have l: "toUpperCase (or_str (req_level req) []) \<noteq> ''SACCO''"
    "toUpperCase (or_str (req_level req) []) \<noteq> ''MATATU''" using assms(2) by simp_all
  show ?thesis
    by (cases k)
      (simp_all add: assign_next_def bind_from_pool_def assign_next_select_unsupported [OF l]
        bind_from_pool_select_unsupported [OF l])
qed

theorem unsupported_level_rejected_witness:
  "list_all isAscii (or_str (req_level req_cashier) [])
   \<and> toUpperCase (or_str (req_level req_cashier) []) \<notin> {''SACCO'', ''MATATU''}
   \<and> assign_next req_cashier 7 pool_110
       = (Response 400 (Failure ''CASHIER level no longer supported''), pool_110)
   \<and> bind_from_pool req_cashier 7 pool_110
       = (Response 400 (Failure ''CASHIER level no longer supported''), pool_110)"
proof -
  have lv: "or_str (req_level req_cashier) [] = ''CASHIER''"
    by (simp add: req_cashier_def or_str_def)
  have a: "list_all isAscii (or_str (req_level req_cashier) [])"
    unfolding lv by (rule isAscii_CASHIER)
  have u: "toUpperCase (or_str (req_level req_cashier) []) = ''CASHIER''"
    by (simp add: lv upper_CASHIER)
  have h: "toUpperCase (or_str (req_level req_cashier) []) \<notin> {''SACCO'', ''MATATU''}"
    unfolding u by simp
  show ?thesis
    using a h unsupported_level_rejected [OF a h, of 7 pool_110 Assign_next]
    unfolding u by (simp add: unsupported_level_def)
qed

text \<open>
  Claim C9, first half as stated and second half as the code has it. The checksum is a
  function of its argument alone. It rejects nothing: on every string, whatever its
  length and characters, it returns a number from 0 to 9, the digital root of the sum of
  the decimal digits in the string, every other character counting as 0.
\<close>

theorem digitalRoot_total:
  "digitalRoot b = (let s = sum_list (map digit_val (filter isDigit b))
                    in if s = 0 then 0 else 1 + (s - 1) mod 9)
   \<and> digitalRoot b \<le> 9"
proof -
  have "sum_list (map digit_val b) = sum_list (map digit_val (filter isDigit b))"
    by (induction b) (simp_all add: digit_val_nondigit)
  then show ?thesis
    by (simp add: digitalRoot_def sumDigits_sum_list digitalRoot_loop_closed [symmetric]
        digitalRoot_loop_le9 Let_def)
qed

text \<open>
  Claim C9 as stated fails: a base with a letter, a base of two characters and a base of
  four characters are each given a checksum instead of being rejected.
\<close>

theorem digitalRoot_malformed_counterexample:
  "\<not> list_all isDigit ''1a0'' \<and> digitalRoot ''1a0'' = 1
   \<and> length ''12'' \<noteq> 3 \<and> digitalRoot ''12'' = 3
   \<and> length ''1000'' \<noteq> 3 \<and> seed_digitalRoot ''1000'' = ''1''"
  by (simp add: digitalRoot_def seed_digitalRoot_def sumDigits_sum_list digitalRoot_loop_closed
      isDigit_def digit_val_def digit_of_def String_nat_digit digit_char_def)

text \<open>
  Claim C10. The parser accepts a string exactly when, at some offset, it holds three
  digits and a fourth digit with \<open>#\<close> or the end of the string right after; the result is
  the base and check digit found at the leftmost such offset. So \<open>12345#\<close> is parsed at
  offset 1, as base 234 and check digit 5; and bind-from-pool, for a request with a valid
  target, answers "invalid code format" only when the code has no such offset at all.
\<close>

theorem parseUssdDigits_leftmost_match:
  "(parseUssdDigits s \<noteq> None \<longleftrightarrow> (\<exists>i. match_at s i))
   \<and> (parseUssdDigits s = Some (b, c) \<longleftrightarrow>
        (\<exists>i. match_at s i \<and> (\<forall>j. j < i \<longrightarrow> \<not> match_at s j)
             \<and> b = take 3 (drop i s) \<and> c = [s ! (i + 3)]))
   \<and> parseUssdDigits ''12345#'' = Some (''234'', ''5'')
   \<and> (resolveTarget (req_level req) req = Inr t \<longrightarrow>
        (bind_from_pool_select req pool = Inl (Response 400 (Failure ''invalid code format''))
          \<longleftrightarrow> (\<forall>i. \<not> match_at (String_opt (req_ussd_code req)) i)))"
proof -
  have some: "parseUssdDigits s = Some (b, c)"
    if "\<exists>i. match_at s i \<and> (\<forall>j. j < i \<longrightarrow> \<not> match_at s j)
             \<and> b = take 3 (drop i s) \<and> c = [s ! (i + 3)]"
  proof -
    from that obtain i where i: "match_at s i" "\<forall>j. j < i \<longrightarrow> \<not> match_at s j"
      "b = take 3 (drop i s)" "c = [s ! (i + 3)]" by blast
    then have "parseUssdDigits s \<noteq> None" by (auto simp: parseUssdDigits_None_iff)
    then obtain b' c' where p: "parseUssdDigits s = Some (b', c')" by auto
    then obtain k where k: "match_at s k" "\<forall>j. j < k \<longrightarrow> \<not> match_at s j"
      "b' = take 3 (drop k s)" "c' = [s ! (k + 3)]"
      using parseUssdDigits_Some_leftmost by blast
    have "i = k" using i(1,2) k(1,2) by (rule leftmost_unique)
    then show ?thesis using p i k by simp
  qed
  have iff1: "parseUssdDigits s \<noteq> None \<longleftrightarrow> (\<exists>i. match_at s i)"
    by (simp add: parseUssdDigits_None_iff)
  have iff2: "parseUssdDigits s = Some (b, c) \<longleftrightarrow>
        (\<exists>i. match_at s i \<and> (\<forall>j. j < i \<longrightarrow> \<not> match_at s j)
             \<and> b = take 3 (drop i s) \<and> c = [s ! (i + 3)])"
    using some parseUssdDigits_Some_leftmost [of s b c] by blast
  have ex: "parseUssdDigits ''12345#'' = Some (''234'', ''5'')"
    by (simp add: isDigit_simps)
  have bind: "bind_from_pool_select req pool = Inl (Response 400 (Failure ''invalid code format''))
          \<longleftrightarrow> (\<forall>i. \<not> match_at (String_opt (req_ussd_code req)) i)"
    if "resolveTarget (req_level req) req = Inr t"
    using bind_invalid_format_iff [OF that] by (simp add: parseUssdDigits_None_iff)
  show ?thesis using iff1 iff2 ex bind by blast
qed

theorem parseUssdDigits_leftmost_match_witness:
  "match_at ''12345#'' 1 \<and> \<not> match_at ''12345#'' 0
   \<and> parseUssdDigits ''12345#'' = Some (''234'', ''5'')
   \<and> resolveTarget (req_level (req_bind_M1 ''12345#'')) (req_bind_M1 ''12345#'') = Inr target_M1
   \<and> bind_from_pool_select (req_bind_M1 ''12345#'') pool_110
       \<noteq> Inl (Response 400 (Failure ''invalid code format''))"
proof -
  have m: "match_at ''12345#'' 1" "\<not> match_at ''12345#'' 0"
    by (simp_all add: match_at_def isDigit_simps)
  have s: "String_opt (req_ussd_code (req_bind_M1 ''12345#'')) = ''12345#''"
    by (simp add: req_bind_M1_def String_opt_def)
  have "\<exists>i. match_at (String_opt (req_ussd_code (req_bind_M1 ''12345#''))) i"
    unfolding s using m(1) by blast
  then show ?thesis
    using parseUssdDigits_leftmost_match [of "''12345#''" "''234''" "''5''" "req_bind_M1 ''12345#''"
        target_M1 pool_110]
      m resolveTarget_req_bind_M1 [of "''12345#''"]
    by blast
qed

end
